theory Spec2Isabelle
  imports Main
begin

section \<open>Grid model (src/src/App.jsx, lines 6 to 36)\<close>

text \<open>
  A cell is the object literal built by \<open>makeEmptyBoard\<close>; a board is an array of rows,
  each an array of cells. Coordinates are JavaScript numbers holding integers (\<open>r-1\<close> may
  be negative), array lengths and the mine budget are natural numbers.
\<close>

record cell =
  isMine :: bool
  isRevealed :: bool
  isFlagged :: bool
  count :: nat

text \<open>
  What can go wrong: reading a property of \<open>undefined\<close> throws a \<open>TypeError\<close>; the
  rejection-sampling loop of \<open>plantMines\<close> draws from \<open>Math.random\<close> and is run here on a
  finite list of draws, \<open>SamplesExhausted\<close> meaning that the loop has not finished within
  the draws supplied.
\<close>

datatype error = TypeError | SamplesExhausted

definition inBounds :: "int \<Rightarrow> int \<Rightarrow> nat \<Rightarrow> nat \<Rightarrow> bool" where
  "inBounds r c rows cols \<longleftrightarrow> r \<ge> 0 \<and> r < int rows \<and> c \<ge> 0 \<and> c < int cols"

definition neighbors :: "int \<Rightarrow> int \<Rightarrow> (int \<times> int) list" where
  "neighbors r c =
     [(r-1,c-1), (r-1,c), (r-1,c+1),
      (r,  c-1),          (r,  c+1),
      (r+1,c-1), (r+1,c), (r+1,c+1)]"

definition emptyCell :: cell where
  "emptyCell = \<lparr> isMine = False, isRevealed = False, isFlagged = False, count = 0 \<rparr>"

definition makeEmptyBoard :: "nat \<Rightarrow> nat \<Rightarrow> cell list list" where
  "makeEmptyBoard rows cols = replicate rows (replicate cols emptyCell)"

text \<open>
  \<open>board[r][c]\<close> followed by a property access. \<open>board[r]\<close> is \<open>undefined\<close> outside
  \<open>0 .. board.length - 1\<close> and so is \<open>board[r][c]\<close> outside the row; either way the
  property access throws, which is \<open>None\<close> here.
\<close>

definition cellAt :: "cell list list \<Rightarrow> int \<Rightarrow> int \<Rightarrow> cell option" where
  "cellAt board r c =
     (if 0 \<le> r \<and> nat r < length board \<and> 0 \<le> c \<and> nat c < length (board ! nat r)
      then Some (board ! nat r ! nat c) else None)"

text \<open>
  The in-place write \<open>board[r][c].field = v\<close>, after the read \<open>board[r][c]\<close> has
  succeeded: the cell object at that position is replaced by the updated one.
\<close>

definition setCell :: "cell list list \<Rightarrow> int \<Rightarrow> int \<Rightarrow> cell \<Rightarrow> cell list list" where
  "setCell board r c cl = board[nat r := (board ! nat r)[nat c := cl]]"

section \<open>Generator (plantMines, lines 37 to 63)\<close>

text \<open>The forbidden set: keys \<open>`${r},${c}`\<close> of the safe cell and of its in-bounds neighbours.\<close>

definition forbiddenSet :: "nat \<Rightarrow> nat \<Rightarrow> int \<Rightarrow> int \<Rightarrow> (int \<times> int) set" where
  "forbiddenSet rows cols safeR safeC =
     insert (safeR, safeC)
       (set (filter (\<lambda>(nr, nc). inBounds nr nc rows cols) (neighbors safeR safeC)))"

text \<open>
  The \<open>while (planted < mines)\<close> loop. Each iteration consumes one draw
  \<open>(Math.floor(Math.random() * rows), Math.floor(Math.random() * cols))\<close>, given here as
  the next element of \<open>samples\<close>. The conjunction short-circuits: the board is read only
  when the key is not forbidden.
\<close>

fun plantLoop ::
  "cell list list \<Rightarrow> nat \<Rightarrow> (int \<times> int) set \<Rightarrow> (nat \<times> nat) list \<Rightarrow> nat \<Rightarrow> error + cell list list"
where
  "plantLoop board mines forbidden [] planted =
     (if planted < mines then Inl SamplesExhausted else Inr board)"
| "plantLoop board mines forbidden ((r, c) # samples) planted =
     (if planted < mines then
        (if (int r, int c) \<in> forbidden then plantLoop board mines forbidden samples planted
         else (case cellAt board (int r) (int c) of
                 None \<Rightarrow> Inl TypeError
               | Some cl \<Rightarrow>
                   if \<not> isMine cl
                   then plantLoop (setCell board (int r) (int c) (cl\<lparr>isMine := True\<rparr>))
                          mines forbidden samples (planted + 1)
                   else plantLoop board mines forbidden samples planted))
      else Inr board)"

text \<open>The innermost loop of the counting pass: \<open>cnt++\<close> for every in-bounds mine neighbour.\<close>

fun countMines ::
  "cell list list \<Rightarrow> nat \<Rightarrow> nat \<Rightarrow> (int \<times> int) list \<Rightarrow> nat \<Rightarrow> error + nat"
where
  "countMines board rows cols [] cnt = Inr cnt"
| "countMines board rows cols ((nr, nc) # ns) cnt =
     (if inBounds nr nc rows cols then
        (case cellAt board nr nc of
           None \<Rightarrow> Inl TypeError
         | Some cl \<Rightarrow> countMines board rows cols ns (if isMine cl then cnt + 1 else cnt))
      else countMines board rows cols ns cnt)"

text \<open>\<open>for (let c = 0; c < cols; c++)\<close> at a fixed row, run over the column indices left.\<close>

fun countCols ::
  "cell list list \<Rightarrow> nat \<Rightarrow> nat \<Rightarrow> nat \<Rightarrow> nat list \<Rightarrow> error + cell list list"
where
  "countCols board rows cols r [] = Inr board"
| "countCols board rows cols r (c # cs) =
     (case cellAt board (int r) (int c) of
        None \<Rightarrow> Inl TypeError
      | Some cl \<Rightarrow>
          if isMine cl then countCols board rows cols r cs
          else (case countMines board rows cols (neighbors (int r) (int c)) 0 of
                  Inl e \<Rightarrow> Inl e
                | Inr cnt \<Rightarrow>
                    countCols (setCell board (int r) (int c) (cl\<lparr>count := cnt\<rparr>))
                      rows cols r cs))"

text \<open>\<open>for (let r = 0; r < rows; r++)\<close>, run over the row indices left.\<close>

fun countRows ::
  "cell list list \<Rightarrow> nat \<Rightarrow> nat \<Rightarrow> nat list \<Rightarrow> error + cell list list"
where
  "countRows board rows cols [] = Inr board"
| "countRows board rows cols (r # rs) =
     (case countCols board rows cols r [0..<cols] of
        Inl e \<Rightarrow> Inl e
      | Inr board' \<Rightarrow> countRows board' rows cols rs)"

definition plantMines ::
  "cell list list \<Rightarrow> nat \<Rightarrow> nat \<Rightarrow> nat \<Rightarrow> int \<Rightarrow> int \<Rightarrow> (nat \<times> nat) list \<Rightarrow> error + cell list list"
where
  "plantMines board rows cols mines safeR safeC samples =
     (case plantLoop board mines (forbiddenSet rows cols safeR safeC) samples 0 of
        Inl e \<Rightarrow> Inl e
      | Inr board' \<Rightarrow> countRows board' rows cols [0..<rows])"

section \<open>Rectangular boards and cell-wise reasoning\<close>

text \<open>A board of \<open>m\<close> rows with \<open>n\<close> cells each, as \<open>makeEmptyBoard\<close> builds it.\<close>

definition rect :: "nat \<Rightarrow> nat \<Rightarrow> cell list list \<Rightarrow> bool" where
  "rect m n b \<longleftrightarrow> length b = m \<and> (\<forall>row \<in> set b. length row = n)"

lemma inBounds_image:
  "inBounds r c m n \<Longrightarrow> r \<in> int ` set [0..<m] \<and> c \<in> int ` set [0..<n]"
  by (auto simp: inBounds_def intro: image_eqI[where x = "nat r"] image_eqI[where x = "nat c"])

lemma cellAt_rect:
  "rect m n b \<Longrightarrow> cellAt b r c = (if inBounds r c m n then Some (b ! nat r ! nat c) else None)"
  by (auto simp: rect_def cellAt_def inBounds_def)

lemma cellAt_Some_inBounds:
  "rect m n b \<Longrightarrow> cellAt b r c = Some cl \<Longrightarrow> inBounds r c m n"
  by (auto simp: cellAt_rect split: if_splits)

lemma rect_setCell:
  assumes "rect m n b"
  shows "rect m n (setCell b r c x)"
proof (cases "nat r < length b")
  case True
  with assms show ?thesis
    unfolding rect_def setCell_def
    by (auto simp: all_set_conv_all_nth nth_list_update)
next
  case False
  with assms show ?thesis by (simp add: setCell_def list_update_beyond)
qed

lemma cellAt_setCell:
  "0 \<le> r \<Longrightarrow> 0 \<le> c \<Longrightarrow>
   cellAt (setCell b r c x) r' c' =
     (if r' = r \<and> c' = c \<and> cellAt b r c \<noteq> None then Some x else cellAt b r' c')"
  unfolding cellAt_def setCell_def
  by (auto simp: nth_list_update)

lemma cellAt_setCell':
  "cellAt b r c = Some cl \<Longrightarrow>
   cellAt (setCell b r c x) r' c' = (if r' = r \<and> c' = c then Some x else cellAt b r' c')"
  using cellAt_setCell[of r c b x r' c'] by (auto simp: cellAt_def split: if_splits)

lemma in_concat_cellAt:
  "cl \<in> set (concat b) \<longleftrightarrow> (\<exists>r c. cellAt b r c = Some cl)"
proof
  assume "cl \<in> set (concat b)"
  then obtain row where "row \<in> set b" "cl \<in> set row" by auto
  then obtain i j where "i < length b" "b ! i = row" "j < length row" "row ! j = cl"
    by (auto simp: in_set_conv_nth)
  then have "cellAt b (int i) (int j) = Some cl" by (simp add: cellAt_def)
  then show "\<exists>r c. cellAt b r c = Some cl" by blast
next
  assume "\<exists>r c. cellAt b r c = Some cl"
  then obtain r c where "nat r < length b" "nat c < length (b ! nat r)" "cl = b ! nat r ! nat c"
    by (auto simp: cellAt_def split: if_splits)
  then have "b ! nat r \<in> set b" "cl \<in> set (b ! nat r)" by auto
  then show "cl \<in> set (concat b)" by auto
qed

lemma filter_update_length:
  "i < length xs \<Longrightarrow>
   length (filter P (xs[i := x])) + (if P (xs ! i) then 1 else 0)
     = length (filter P xs) + (if P x then 1 else 0)"
proof (induction xs arbitrary: i)
  case Nil
  then show ?case by simp
next
  case (Cons a xs)
  show ?case
  proof (cases i)
    case 0
    then show ?thesis by simp
  next
    case (Suc k)
    with Cons.prems have "k < length xs" by simp
    from Cons.IH[OF this] Suc show ?thesis by simp
  qed
qed

lemma filter_concat_update_length:
  "i < length b \<Longrightarrow>
   length (filter P (concat (b[i := row]))) + length (filter P (b ! i))
     = length (filter P (concat b)) + length (filter P row)"
proof (induction b arbitrary: i)
  case Nil
  then show ?case by simp
next
  case (Cons a b)
  show ?case
  proof (cases i)
    case 0
    then show ?thesis by simp
  next
    case (Suc k)
    with Cons.prems have "k < length b" by simp
    from Cons.IH[OF this] Suc show ?thesis by simp
  qed
qed

lemma tally_setCell:
  assumes "cellAt b r c = Some cl"
  shows "length (filter P (concat (setCell b r c x))) + (if P cl then 1 else 0)
           = length (filter P (concat b)) + (if P x then 1 else 0)"
proof -
  from assms have r: "nat r < length b" and c: "nat c < length (b ! nat r)"
    and cl: "cl = b ! nat r ! nat c"
    by (auto simp: cellAt_def split: if_splits)
  from filter_concat_update_length[OF r, of P "(b ! nat r)[nat c := x]"]
       filter_update_length[OF c, of P x]
  show ?thesis unfolding setCell_def cl by (simp split: if_splits)
qed

section \<open>The counting pass\<close>

text \<open>
  The number of in-bounds mine-bearing neighbours of a position, stated directly on the
  board: the value the counting pass is meant to store.
\<close>

definition minedAt :: "cell list list \<Rightarrow> nat \<Rightarrow> nat \<Rightarrow> int \<times> int \<Rightarrow> bool" where
  "minedAt b m n p \<longleftrightarrow>
     inBounds (fst p) (snd p) m n \<and>
     (case cellAt b (fst p) (snd p) of Some cl \<Rightarrow> isMine cl | None \<Rightarrow> False)"

definition minedNeighbours :: "cell list list \<Rightarrow> nat \<Rightarrow> nat \<Rightarrow> int \<Rightarrow> int \<Rightarrow> nat" where
  "minedNeighbours b m n r c = length (filter (minedAt b m n) (neighbors r c))"

definition mineMap :: "cell list list \<Rightarrow> int \<Rightarrow> int \<Rightarrow> bool option" where
  "mineMap b r c = map_option isMine (cellAt b r c)"

definition withCount :: "cell list list \<Rightarrow> nat \<Rightarrow> nat \<Rightarrow> int \<Rightarrow> int \<Rightarrow> cell \<Rightarrow> cell" where
  "withCount b m n r c cl = (if isMine cl then cl else cl\<lparr>count := minedNeighbours b m n r c\<rparr>)"

lemma countMines_rect:
  assumes "rect m n b"
  shows "countMines b m n ns cnt = Inr (cnt + length (filter (minedAt b m n) ns))"
proof (induction ns arbitrary: cnt)
  case Nil
  show ?case by simp
next
  case (Cons p ns)
  obtain nr nc where p: "p = (nr, nc)" by (cases p)
  show ?case
  proof (cases "inBounds nr nc m n")
    case True
    with assms have "cellAt b nr nc = Some (b ! nat nr ! nat nc)" by (simp add: cellAt_rect)
    with True show ?thesis by (simp add: p Cons.IH minedAt_def)
  next
    case False
    then show ?thesis by (simp add: p Cons.IH minedAt_def)
  qed
qed

lemma countMines_neighbors:
  "rect m n b \<Longrightarrow> countMines b m n (neighbors r c) 0 = Inr (minedNeighbours b m n r c)"
  by (simp add: countMines_rect minedNeighbours_def)

lemma minedAt_cong:
  assumes "\<And>r c. mineMap b' r c = mineMap b r c"
  shows "minedAt b' m n p = minedAt b m n p"
proof -
  have "mineMap b' (fst p) (snd p) = mineMap b (fst p) (snd p)" by (rule assms)
  then show ?thesis
    unfolding mineMap_def minedAt_def
    by (cases "cellAt b' (fst p) (snd p)"; cases "cellAt b (fst p) (snd p)") auto
qed

lemma minedNeighbours_cong:
  assumes "\<And>r c. mineMap b' r c = mineMap b r c"
  shows "minedNeighbours b' m n r c = minedNeighbours b m n r c"
proof -
  have "minedAt b' m n = minedAt b m n"
    using minedAt_cong[OF assms] by auto
  then show ?thesis by (simp add: minedNeighbours_def)
qed

lemma withCount_cong:
  assumes "\<And>r c. mineMap b' r c = mineMap b r c"
  shows "withCount b' m n r c = withCount b m n r c"
  using minedNeighbours_cong[OF assms] by (auto simp: withCount_def fun_eq_iff)

lemma withCount_idem: "withCount b m n r c (withCount b m n r c cl) = withCount b m n r c cl"
  by (simp add: withCount_def)

lemma isMine_withCount: "isMine (withCount b m n r c cl) = isMine cl"
  by (simp add: withCount_def)

lemma mineMap_setCell_count:
  assumes "cellAt b r c = Some cl"
  shows "mineMap (setCell b r c (cl\<lparr>count := k\<rparr>)) r' c' = mineMap b r' c'"
  using assms by (simp add: mineMap_def cellAt_setCell')

lemma countCols_spec:
  assumes "rect m n b" "r < m" "\<forall>c \<in> set cs. c < n"
  shows "\<exists>b'. countCols b m n r cs = Inr b' \<and> rect m n b' \<and>
           (\<forall>r' c'. cellAt b' r' c' =
               (if r' = int r \<and> c' \<in> int ` set cs
                then map_option (withCount b m n r' c') (cellAt b r' c')
                else cellAt b r' c'))"
  using assms
proof (induction cs arbitrary: b)
  case Nil
  then show ?case by simp
next
  case (Cons c cs)
  from Cons.prems have cn: "c < n" and cs: "\<forall>c \<in> set cs. c < n" by auto
  from Cons.prems cn have ib: "inBounds (int r) (int c) m n" by (simp add: inBounds_def)
  define cl where "cl = b ! r ! c"
  from Cons.prems ib have at: "cellAt b (int r) (int c) = Some cl"
    by (simp add: cellAt_rect cl_def)
  show ?case
  proof (cases "isMine cl")
    case True
    from Cons.IH[OF Cons.prems(1,2) cs] obtain b' where
      b': "countCols b m n r cs = Inr b'" "rect m n b'"
      "\<And>r' c'. cellAt b' r' c' =
               (if r' = int r \<and> c' \<in> int ` set cs
                then map_option (withCount b m n r' c') (cellAt b r' c')
                else cellAt b r' c')" by blast
    have "countCols b m n r (c # cs) = Inr b'" using at True b'(1) by simp
    moreover have "cellAt b' r' c' =
               (if r' = int r \<and> c' \<in> int ` set (c # cs)
                then map_option (withCount b m n r' c') (cellAt b r' c')
                else cellAt b r' c')" for r' c'
      using b'(3)[of r' c'] at True by (auto simp: withCount_def)
    ultimately show ?thesis using b'(2) by blast
  next
    case False
    define b1 where "b1 = setCell b (int r) (int c) (cl\<lparr>count := minedNeighbours b m n (int r) (int c)\<rparr>)"
    have r1: "rect m n b1" unfolding b1_def by (rule rect_setCell[OF Cons.prems(1)])
    have mm: "\<And>r' c'. mineMap b1 r' c' = mineMap b r' c'"
      unfolding b1_def by (rule mineMap_setCell_count[OF at])
    from Cons.IH[OF r1 Cons.prems(2) cs] obtain b' where
      b': "countCols b1 m n r cs = Inr b'" "rect m n b'"
      "\<And>r' c'. cellAt b' r' c' =
               (if r' = int r \<and> c' \<in> int ` set cs
                then map_option (withCount b1 m n r' c') (cellAt b1 r' c')
                else cellAt b1 r' c')" by blast
    have "countCols b m n r (c # cs) = Inr b'"
      using at False b'(1) countMines_neighbors[OF Cons.prems(1)] by (simp add: b1_def)
    moreover have "cellAt b' r' c' =
               (if r' = int r \<and> c' \<in> int ` set (c # cs)
                then map_option (withCount b m n r' c') (cellAt b r' c')
                else cellAt b r' c')" for r' c'
    proof (cases "r' = int r \<and> c' = int c")
      case True
      then have c1: "cellAt b1 r' c' = Some (cl\<lparr>count := minedNeighbours b m n (int r) (int c)\<rparr>)"
        by (simp add: b1_def cellAt_setCell'[OF at])
      from True at \<open>\<not> isMine cl\<close> show ?thesis
        unfolding b'(3)[of r' c'] c1 withCount_cong[OF mm]
        by (simp add: withCount_def)
    next
      case False
      then have "cellAt b1 r' c' = cellAt b r' c'"
        by (auto simp: b1_def cellAt_setCell'[OF at])
      with False show ?thesis
        using b'(3)[of r' c'] by (auto simp: withCount_cong[OF mm])
    qed
    ultimately show ?thesis using b'(2) by blast
  qed
qed

lemma countRows_spec:
  assumes "rect m n b" "\<forall>r \<in> set rs. r < m"
  shows "\<exists>b'. countRows b m n rs = Inr b' \<and> rect m n b' \<and>
           (\<forall>r' c'. cellAt b' r' c' =
               (if r' \<in> int ` set rs
                then map_option (withCount b m n r' c') (cellAt b r' c')
                else cellAt b r' c'))"
  using assms
proof (induction rs arbitrary: b)
  case Nil
  then show ?case by simp
next
  case (Cons r rs)
  from Cons.prems have rm: "r < m" and rs: "\<forall>r \<in> set rs. r < m" by auto
  from countCols_spec[OF Cons.prems(1) rm, of "[0..<n]"] obtain b1 where
    b1: "countCols b m n r [0..<n] = Inr b1" "rect m n b1"
      "\<And>r' c'. cellAt b1 r' c' =
               (if r' = int r \<and> c' \<in> int ` set [0..<n]
                then map_option (withCount b m n r' c') (cellAt b r' c')
                else cellAt b r' c')" by auto
  have row: "cellAt b1 r' c' =
               (if r' = int r then map_option (withCount b m n r' c') (cellAt b r' c')
                else cellAt b r' c')" for r' c'
  proof (cases "c' \<in> int ` set [0..<n]")
    case True
    then show ?thesis using b1(3)[of r' c'] by simp
  next
    case False
    then have "\<not> inBounds r' c' m n" using inBounds_image[of r' c' m n] by auto
    then have "cellAt b r' c' = None" using Cons.prems(1) by (simp add: cellAt_rect)
    then show ?thesis using b1(3)[of r' c'] by auto
  qed
  have mm: "\<And>r' c'. mineMap b1 r' c' = mineMap b r' c'"
    unfolding mineMap_def row by (auto simp: option.map_comp comp_def isMine_withCount)
  from Cons.IH[OF b1(2) rs] obtain b' where
    b': "countRows b1 m n rs = Inr b'" "rect m n b'"
      "\<And>r' c'. cellAt b' r' c' =
               (if r' \<in> int ` set rs
                then map_option (withCount b1 m n r' c') (cellAt b1 r' c')
                else cellAt b1 r' c')" by blast
  have "countRows b m n (r # rs) = Inr b'" using b1(1) b'(1) by simp
  moreover have "cellAt b' r' c' =
               (if r' \<in> int ` set (r # rs)
                then map_option (withCount b m n r' c') (cellAt b r' c')
                else cellAt b r' c')" for r' c'
    using b'(3)[of r' c']
    by (auto simp: withCount_cong[OF mm] row option.map_comp comp_def withCount_idem)
  ultimately show ?case using b'(2) by blast
qed

lemma countRows_full:
  assumes "rect m n b"
  shows "\<exists>b'. countRows b m n [0..<m] = Inr b' \<and> rect m n b' \<and>
           (\<forall>r c. cellAt b' r c = map_option (withCount b m n r c) (cellAt b r c))"
proof -
  from countRows_spec[OF assms, of "[0..<m]"] obtain b' where
    b': "countRows b m n [0..<m] = Inr b'" "rect m n b'"
      "\<And>r' c'. cellAt b' r' c' =
               (if r' \<in> int ` set [0..<m]
                then map_option (withCount b m n r' c') (cellAt b r' c')
                else cellAt b r' c')" by auto
  have "cellAt b' r c = map_option (withCount b m n r c) (cellAt b r c)" for r c
  proof (cases "r \<in> int ` set [0..<m]")
    case True
    then show ?thesis using b'(3)[of r c] by simp
  next
    case False
    then have "\<not> inBounds r c m n" using inBounds_image[of r c m n] by auto
    then have "cellAt b r c = None" using assms by (simp add: cellAt_rect)
    then show ?thesis using b'(3)[of r c] by auto
  qed
  with b'(1,2) show ?thesis by blast
qed

section \<open>The planting loop\<close>

text \<open>
  What planting may do to a board: cells keep their position and every field but
  \<open>isMine\<close>, mines are only added, and never on a forbidden key.
\<close>

definition plantedFrom :: "(int \<times> int) set \<Rightarrow> cell list list \<Rightarrow> cell list list \<Rightarrow> bool" where
  "plantedFrom F b b' \<longleftrightarrow>
     (\<forall>r c. rel_option
        (\<lambda>cl cl'. isRevealed cl' = isRevealed cl \<and> isFlagged cl' = isFlagged cl \<and>
                   count cl' = count cl \<and> (isMine cl \<longrightarrow> isMine cl') \<and>
                   (isMine cl' \<and> \<not> isMine cl \<longrightarrow> (r, c) \<notin> F))
        (cellAt b r c) (cellAt b' r c))"

lemma plantedFrom_refl: "plantedFrom F b b"
  unfolding plantedFrom_def
proof (intro allI)
  fix r c
  show "rel_option
        (\<lambda>cl cl'. isRevealed cl' = isRevealed cl \<and> isFlagged cl' = isFlagged cl \<and>
                   count cl' = count cl \<and> (isMine cl \<longrightarrow> isMine cl') \<and>
                   (isMine cl' \<and> \<not> isMine cl \<longrightarrow> (r, c) \<notin> F))
        (cellAt b r c) (cellAt b r c)"
    by (cases "cellAt b r c") auto
qed

lemma plantedFrom_trans:
  assumes "plantedFrom F b b1" "plantedFrom F b1 b2"
  shows "plantedFrom F b b2"
  unfolding plantedFrom_def
proof (intro allI)
  fix r c
  from assms have
    "rel_option
        (\<lambda>cl cl'. isRevealed cl' = isRevealed cl \<and> isFlagged cl' = isFlagged cl \<and>
                   count cl' = count cl \<and> (isMine cl \<longrightarrow> isMine cl') \<and>
                   (isMine cl' \<and> \<not> isMine cl \<longrightarrow> (r, c) \<notin> F))
        (cellAt b r c) (cellAt b1 r c)"
    "rel_option
        (\<lambda>cl cl'. isRevealed cl' = isRevealed cl \<and> isFlagged cl' = isFlagged cl \<and>
                   count cl' = count cl \<and> (isMine cl \<longrightarrow> isMine cl') \<and>
                   (isMine cl' \<and> \<not> isMine cl \<longrightarrow> (r, c) \<notin> F))
        (cellAt b1 r c) (cellAt b2 r c)"
    by (auto simp: plantedFrom_def)
  then show "rel_option
        (\<lambda>cl cl'. isRevealed cl' = isRevealed cl \<and> isFlagged cl' = isFlagged cl \<and>
                   count cl' = count cl \<and> (isMine cl \<longrightarrow> isMine cl') \<and>
                   (isMine cl' \<and> \<not> isMine cl \<longrightarrow> (r, c) \<notin> F))
        (cellAt b r c) (cellAt b2 r c)"
    by (cases "cellAt b r c"; cases "cellAt b1 r c"; cases "cellAt b2 r c") auto
qed

lemma plantedFrom_step:
  assumes "cellAt b r c = Some cl" "\<not> isMine cl" "(r, c) \<notin> F"
  shows "plantedFrom F b (setCell b r c (cl\<lparr>isMine := True\<rparr>))"
  unfolding plantedFrom_def
proof (intro allI)
  fix r' c'
  show "rel_option
        (\<lambda>cl cl'. isRevealed cl' = isRevealed cl \<and> isFlagged cl' = isFlagged cl \<and>
                   count cl' = count cl \<and> (isMine cl \<longrightarrow> isMine cl') \<and>
                   (isMine cl' \<and> \<not> isMine cl \<longrightarrow> (r', c') \<notin> F))
        (cellAt b r' c') (cellAt (setCell b r c (cl\<lparr>isMine := True\<rparr>)) r' c')"
    using assms by (cases "cellAt b r' c'") (auto simp: cellAt_setCell'[OF assms(1)])
qed

lemma plantLoop_spec:
  assumes "plantLoop b k F smp p = Inr b'" "rect m n b" "p \<le> k"
  shows "rect m n b' \<and> plantedFrom F b b' \<and>
         length (filter isMine (concat b')) + p = length (filter isMine (concat b)) + k"
  using assms
proof (induction smp arbitrary: b p)
  case Nil
  then show ?case by (auto simp: plantedFrom_refl split: if_splits)
next
  case (Cons s smp)
  obtain r c where s: "s = (r, c)" by (cases s)
  show ?case
  proof (cases "p < k")
    case False
    with Cons.prems show ?thesis by (auto simp: s plantedFrom_refl)
  next
    case True
    show ?thesis
    proof (cases "(int r, int c) \<in> F")
      case inF: True
      with True Cons.prems have "plantLoop b k F smp p = Inr b'" by (simp add: s)
      from Cons.IH[OF this Cons.prems(2,3)] show ?thesis .
    next
      case notF: False
      with True Cons.prems obtain cl where at: "cellAt b (int r) (int c) = Some cl"
        by (cases "cellAt b (int r) (int c)") (auto simp: s)
      show ?thesis
      proof (cases "isMine cl")
        case True
        with \<open>p < k\<close> notF at Cons.prems have "plantLoop b k F smp p = Inr b'" by (simp add: s)
        from Cons.IH[OF this Cons.prems(2,3)] show ?thesis .
      next
        case False
        define b1 where "b1 = setCell b (int r) (int c) (cl\<lparr>isMine := True\<rparr>)"
        from False \<open>p < k\<close> notF at Cons.prems have run: "plantLoop b1 k F smp (p + 1) = Inr b'"
          by (simp add: s b1_def)
        have r1: "rect m n b1" unfolding b1_def by (rule rect_setCell[OF Cons.prems(2)])
        from \<open>p < k\<close> have pk: "p + 1 \<le> k" by simp
        from Cons.IH[OF run r1 pk] have ih: "rect m n b'" "plantedFrom F b1 b'"
          "length (filter isMine (concat b')) + (p + 1) = length (filter isMine (concat b1)) + k"
          by auto
        have step: "plantedFrom F b b1" unfolding b1_def
          by (rule plantedFrom_step[OF at False notF])
        have "length (filter isMine (concat b1)) = length (filter isMine (concat b)) + 1"
          using tally_setCell[OF at, of isMine "cl\<lparr>isMine := True\<rparr>"] False by (simp add: b1_def)
        with ih plantedFrom_trans[OF step ih(2)] show ?thesis by simp
      qed
    qed
  qed
qed

lemma tally_cong:
  assumes "rect m n b" "rect m n b'"
    and "\<And>r c. map_option P (cellAt b' r c) = map_option P (cellAt b r c)"
  shows "length (filter P (concat b')) = length (filter P (concat b))"
proof -
  have "map (map P) b' = map (map P) b"
  proof (rule nth_equalityI)
    show "length (map (map P) b') = length (map (map P) b)"
      using assms(1,2) by (simp add: rect_def)
  next
    fix i assume "i < length (map (map P) b')"
    then have i: "i < m" using assms(2) by (simp add: rect_def)
    then have li: "length (b ! i) = n" "length (b' ! i) = n"
      using assms(1,2) by (auto simp: rect_def)
    have "map P (b' ! i) = map P (b ! i)"
    proof (rule nth_equalityI)
      show "length (map P (b' ! i)) = length (map P (b ! i))" using li by simp
    next
      fix j assume "j < length (map P (b' ! i))"
      then have j: "j < n" using li by simp
      with i have "inBounds (int i) (int j) m n" by (simp add: inBounds_def)
      with assms(3)[of "int i" "int j"] assms(1,2) have "P (b' ! i ! j) = P (b ! i ! j)"
        by (simp add: cellAt_rect)
      with j li show "map P (b' ! i) ! j = map P (b ! i) ! j" by simp
    qed
    with i assms(1,2) show "map (map P) b' ! i = map (map P) b ! i" by (simp add: rect_def)
  qed
  then have "map P (concat b') = map P (concat b)" by (simp add: map_concat)
  then have "length (filter id (map P (concat b'))) = length (filter id (map P (concat b)))"
    by simp
  then show ?thesis by (simp add: filter_map comp_def)
qed

lemma rect_makeEmptyBoard: "rect m n (makeEmptyBoard m n)"
  by (simp add: rect_def makeEmptyBoard_def)

lemma cellAt_makeEmptyBoard:
  "cellAt (makeEmptyBoard m n) r c = (if inBounds r c m n then Some emptyCell else None)"
proof (cases "inBounds r c m n")
  case True
  then have "nat r < m" "nat c < n" by (auto simp: inBounds_def)
  then have "makeEmptyBoard m n ! nat r ! nat c = emptyCell" by (simp add: makeEmptyBoard_def)
  with True show ?thesis by (simp add: cellAt_rect[OF rect_makeEmptyBoard])
next
  case False
  then show ?thesis by (simp add: cellAt_rect[OF rect_makeEmptyBoard])
qed

lemma concat_makeEmptyBoard: "set (concat (makeEmptyBoard m n)) \<subseteq> {emptyCell}"
  by (auto simp: makeEmptyBoard_def)

lemma plantMines_spec:
  assumes "plantMines b m n k sr sc smp = Inr b'" "rect m n b"
  shows "\<exists>b1. rect m n b1 \<and> rect m n b' \<and> plantedFrom (forbiddenSet m n sr sc) b b1 \<and>
           length (filter isMine (concat b1)) = length (filter isMine (concat b)) + k \<and>
           (\<forall>r c. cellAt b' r c = map_option (withCount b1 m n r c) (cellAt b1 r c))"
proof -
  from assms(1) obtain b1 where
    b1: "plantLoop b k (forbiddenSet m n sr sc) smp 0 = Inr b1"
    and cr: "countRows b1 m n [0..<m] = Inr b'"
    by (auto simp: plantMines_def split: sum.splits)
  from plantLoop_spec[OF b1 assms(2)] have
    p: "rect m n b1" "plantedFrom (forbiddenSet m n sr sc) b b1"
       "length (filter isMine (concat b1)) = length (filter isMine (concat b)) + k" by auto
  from countRows_full[OF p(1)] cr have
    "rect m n b'" "\<forall>r c. cellAt b' r c = map_option (withCount b1 m n r c) (cellAt b1 r c)"
    by auto
  with p show ?thesis by blast
qed

lemma plantMines_total:
  assumes "plantLoop b k (forbiddenSet m n sr sc) smp 0 = Inr b1" "rect m n b"
  shows "\<exists>b'. plantMines b m n k sr sc smp = Inr b'"
proof -
  from plantLoop_spec[OF assms] have "rect m n b1" by simp
  from countRows_full[OF this] show ?thesis by (auto simp: plantMines_def assms(1))
qed

section \<open>When the planting loop ends\<close>

text \<open>
  A draw is accepted by the loop when its key is not forbidden and the cell drawn is not
  a mine yet. The loop ends once \<open>mines\<close> draws have been accepted, so what matters
  in a sequence of draws is how many different acceptable cells it names.
\<close>

definition minedCell :: "cell list list \<Rightarrow> nat \<times> nat \<Rightarrow> bool" where
  "minedCell b p \<longleftrightarrow>
     (case cellAt b (int (fst p)) (int (snd p)) of None \<Rightarrow> False | Some cl \<Rightarrow> isMine cl)"

definition acceptable :: "cell list list \<Rightarrow> (int \<times> int) set \<Rightarrow> (nat \<times> nat) list \<Rightarrow> (nat \<times> nat) set" where
  "acceptable b F smp = {p \<in> set smp. (int (fst p), int (snd p)) \<notin> F \<and> \<not> minedCell b p}"

text \<open>
  What \<open>Math.floor(Math.random() * rows)\<close> and \<open>Math.floor(Math.random() * cols)\<close> can
  give: a row index below \<open>rows\<close> and a column index below \<open>cols\<close>.
\<close>

definition drawsWithin :: "nat \<Rightarrow> nat \<Rightarrow> (nat \<times> nat) list \<Rightarrow> bool" where
  "drawsWithin m n smp = list_all (\<lambda>(r, c). r < m \<and> c < n) smp"

text \<open>The different cells outside the forbidden set that a sequence of draws names.\<close>

definition freshDraws :: "nat \<Rightarrow> nat \<Rightarrow> int \<Rightarrow> int \<Rightarrow> (nat \<times> nat) list \<Rightarrow> (nat \<times> nat) list" where
  "freshDraws m n safeR safeC smp =
     remdups (filter (\<lambda>(r, c). (int r, int c) \<notin> forbiddenSet m n safeR safeC) smp)"

text \<open>One draw of every cell of the grid, row by row.\<close>

definition allCells :: "nat \<Rightarrow> nat \<Rightarrow> (nat \<times> nat) list" where
  "allCells m n = concat (map (\<lambda>r. map (\<lambda>c. (r, c)) [0..<n]) [0..<m])"

lemma finite_acceptable: "finite (acceptable b F smp)"
  by (simp add: acceptable_def)

lemma acceptable_skip:
  assumes "(int r, int c) \<in> F \<or> minedCell b (r, c)"
  shows "acceptable b F ((r, c) # smp) = acceptable b F smp"
  using assms by (auto simp: acceptable_def)

lemma minedCell_plant:
  assumes "cellAt b (int r) (int c) = Some cl"
  shows "minedCell (setCell b (int r) (int c) (cl\<lparr>isMine := True\<rparr>)) q
           \<longleftrightarrow> q = (r, c) \<or> minedCell b q"
  by (cases q) (auto simp: minedCell_def cellAt_setCell'[OF assms] assms)

lemma acceptable_plant:
  assumes at: "cellAt b (int r) (int c) = Some cl" and "\<not> isMine cl" "(int r, int c) \<notin> F"
  shows "acceptable b F ((r, c) # smp)
           = insert (r, c) (acceptable (setCell b (int r) (int c) (cl\<lparr>isMine := True\<rparr>)) F smp)"
    and "(r, c) \<notin> acceptable (setCell b (int r) (int c) (cl\<lparr>isMine := True\<rparr>)) F smp"
proof -
  have "\<not> minedCell b (r, c)" using assms by (simp add: minedCell_def)
  then show "acceptable b F ((r, c) # smp)
           = insert (r, c) (acceptable (setCell b (int r) (int c) (cl\<lparr>isMine := True\<rparr>)) F smp)"
    using assms(3) by (auto simp: acceptable_def minedCell_plant[OF at])
  show "(r, c) \<notin> acceptable (setCell b (int r) (int c) (cl\<lparr>isMine := True\<rparr>)) F smp"
    by (simp add: acceptable_def minedCell_plant[OF at])
qed

text \<open>
  On draws within the grid the loop returns exactly when the draws name enough acceptable
  cells for the mines still to plant; with fewer it is still running when the draws end.
  It never throws.
\<close>

lemma plantLoop_returns:
  assumes "rect m n b" "drawsWithin m n smp" "p \<le> k"
  shows "(k \<le> p + card (acceptable b F smp) \<longrightarrow> (\<exists>b'. plantLoop b k F smp p = Inr b')) \<and>
         (\<not> k \<le> p + card (acceptable b F smp) \<longrightarrow> plantLoop b k F smp p = Inl SamplesExhausted)"
  using assms
proof (induction smp arbitrary: b p)
  case Nil
  then show ?case by (auto simp: acceptable_def)
next
  case (Cons s smp)
  obtain r c where s: "s = (r, c)" by (cases s)
  from Cons.prems(2) have rc: "r < m" "c < n" and within: "drawsWithin m n smp"
    by (auto simp: s drawsWithin_def)
  show ?case
  proof (cases "p < k")
    case False
    then show ?thesis by (simp add: s)
  next
    case True
    from rc have "inBounds (int r) (int c) m n" by (simp add: inBounds_def)
    with Cons.prems(1) obtain cl where at: "cellAt b (int r) (int c) = Some cl"
      by (simp add: cellAt_rect)
    show ?thesis
    proof (cases "(int r, int c) \<in> F \<or> isMine cl")
      case skip: True
      then have "(int r, int c) \<in> F \<or> minedCell b (r, c)" using at by (simp add: minedCell_def)
      from acceptable_skip[OF this]
      have a: "acceptable b F (s # smp) = acceptable b F smp" by (simp add: s)
      from skip True at have "plantLoop b k F (s # smp) p = plantLoop b k F smp p"
        by (auto simp: s)
      with Cons.IH[OF Cons.prems(1) within Cons.prems(3)] a show ?thesis by simp
    next
      case False
      define b1 where "b1 = setCell b (int r) (int c) (cl\<lparr>isMine := True\<rparr>)"
      from False have nm: "\<not> isMine cl" and nf: "(int r, int c) \<notin> F" by auto
      have r1: "rect m n b1" unfolding b1_def by (rule rect_setCell[OF Cons.prems(1)])
      from True have pk: "p + 1 \<le> k" by simp
      from acceptable_plant[OF at nm nf, of smp]
      have "acceptable b F (s # smp) = insert (r, c) (acceptable b1 F smp)"
        "(r, c) \<notin> acceptable b1 F smp" by (simp_all add: s b1_def)
      then have a: "card (acceptable b F (s # smp)) = card (acceptable b1 F smp) + 1"
        by (simp add: finite_acceptable)
      from False True at have "plantLoop b k F (s # smp) p = plantLoop b1 k F smp (p + 1)"
        by (simp add: s b1_def)
      with Cons.IH[OF r1 within pk] a show ?thesis by simp
    qed
  qed
qed

lemma minedCell_makeEmptyBoard: "\<not> minedCell (makeEmptyBoard m n) p"
  by (simp add: minedCell_def cellAt_makeEmptyBoard emptyCell_def)

lemma card_acceptable_empty:
  "card (acceptable (makeEmptyBoard m n) (forbiddenSet m n sr sc) smp)
     = length (freshDraws m n sr sc smp)"
proof -
  have "acceptable (makeEmptyBoard m n) (forbiddenSet m n sr sc) smp
          = set (filter (\<lambda>(r, c). (int r, int c) \<notin> forbiddenSet m n sr sc) smp)"
    by (auto simp: acceptable_def minedCell_makeEmptyBoard)
  then show ?thesis by (simp add: freshDraws_def length_remdups_card_conv)
qed

text \<open>
  So \<open>plantMines\<close> on the empty board returns exactly on the draws that name at least
  \<open>mines\<close> different cells outside the forbidden set; the counting pass always returns.
\<close>

lemma plantMines_returns:
  assumes "drawsWithin m n smp"
  shows "if k \<le> length (freshDraws m n sr sc smp)
         then \<exists>b'. plantMines (makeEmptyBoard m n) m n k sr sc smp = Inr b'
         else plantMines (makeEmptyBoard m n) m n k sr sc smp = Inl SamplesExhausted"
proof (cases "k \<le> length (freshDraws m n sr sc smp)")
  case True
  with plantLoop_returns[OF rect_makeEmptyBoard assms, of 0 k "forbiddenSet m n sr sc"]
  obtain b1 where "plantLoop (makeEmptyBoard m n) k (forbiddenSet m n sr sc) smp 0 = Inr b1"
    by (auto simp: card_acceptable_empty)
  from plantMines_total[OF this rect_makeEmptyBoard] True show ?thesis by simp
next
  case False
  with plantLoop_returns[OF rect_makeEmptyBoard assms, of 0 k "forbiddenSet m n sr sc"]
  have "plantLoop (makeEmptyBoard m n) k (forbiddenSet m n sr sc) smp 0 = Inl SamplesExhausted"
    by (simp add: card_acceptable_empty)
  with False show ?thesis by (simp add: plantMines_def)
qed

text \<open>The forbidden set has at most nine keys.\<close>

lemma card_forbiddenSet: "finite (forbiddenSet m n sr sc) \<and> card (forbiddenSet m n sr sc) \<le> 9"
proof -
  let ?N = "set (filter (\<lambda>(nr, nc). inBounds nr nc m n) (neighbors sr sc))"
  have "card ?N \<le> length (filter (\<lambda>(nr, nc). inBounds nr nc m n) (neighbors sr sc))"
    by (rule card_length)
  also have "\<dots> \<le> length (neighbors sr sc)" by (rule length_filter_le)
  also have "\<dots> = 8" by (simp add: neighbors_def)
  finally have "card ?N \<le> 8" .
  moreover have "card (insert (sr, sc) ?N) \<le> card ?N + 1"
    by (simp add: card_insert_if)
  ultimately show ?thesis by (simp add: forbiddenSet_def)
qed

lemma set_allCells: "set (allCells m n) = {0..<m} \<times> {0..<n}"
  by (auto simp: allCells_def)

lemma drawsWithin_allCells: "drawsWithin m n (allCells m n)"
  by (auto simp: drawsWithin_def list_all_iff set_allCells)

lemma drawsWithin_append:
  "drawsWithin m n (xs @ ys) \<longleftrightarrow> drawsWithin m n xs \<and> drawsWithin m n ys"
  by (simp add: drawsWithin_def)

text \<open>
  After one draw of every cell at most nine cells are not named, whatever was drawn
  before.
\<close>

lemma freshDraws_allCells: "m * n \<le> length (freshDraws m n sr sc (smp @ allCells m n)) + 9"
proof -
  let ?F = "forbiddenSet m n sr sc"
  let ?A = "{0..<m} \<times> {0..<n}"
  let ?G = "{p \<in> ?A. (int (fst p), int (snd p)) \<in> ?F}"
  let ?S = "set (filter (\<lambda>(r, c). (int r, int c) \<notin> ?F) (smp @ allCells m n))"
  have fin: "finite ?F" using card_forbiddenSet by blast
  have "(\<lambda>p. (int (fst p), int (snd p))) ` ?G \<subseteq> ?F" by auto
  moreover have "inj_on (\<lambda>p. (int (fst p), int (snd p))) ?G"
    by (auto simp: inj_on_def prod_eq_iff)
  ultimately have "card ?G \<le> card ?F" using fin by (intro card_inj_on_le[where f = "\<lambda>p. (int (fst p), int (snd p))"])
  with card_forbiddenSet[of m n sr sc] have g: "card ?G \<le> 9" by simp
  have "?A - ?G \<subseteq> ?S" by (auto simp: set_allCells)
  then have "card (?A - ?G) \<le> card ?S" by (intro card_mono) simp_all
  moreover have "card ?A - card ?G \<le> card (?A - ?G)" by (rule diff_card_le_card_Diff) simp
  moreover have "card ?A = m * n" by simp
  ultimately have "m * n \<le> card ?S + 9" using g by linarith
  then show ?thesis by (simp only: freshDraws_def length_remdups_card_conv)
qed

text \<open>Draws that come after the loop has ended are not looked at.\<close>

lemma plantLoop_append:
  "plantLoop b k F smp p = Inr b' \<Longrightarrow> plantLoop b k F (smp @ rest) p = Inr b'"
proof (induction smp arbitrary: b p)
  case Nil
  then show ?case by (cases rest) (auto split: if_splits)
next
  case (Cons s smp)
  obtain r c where s: "s = (r, c)" by (cases s)
  from Cons.prems show ?case
    by (auto simp: s Cons.IH split: if_splits option.splits)
qed

lemma plantMines_append:
  "plantMines b m n k sr sc smp = Inr b' \<Longrightarrow> plantMines b m n k sr sc (smp @ rest) = Inr b'"
  by (auto simp: plantMines_def plantLoop_append split: sum.splits)

text \<open>
  With \<open>Math.random\<close> as an unending sequence of draws: if the sequence names \<open>mines\<close>
  different cells outside the forbidden set, the loop ends after finitely many draws, and
  the board planted does not depend on how many more draws are supplied.
\<close>

lemma plantMines_ends:
  fixes draw :: "nat \<Rightarrow> nat \<times> nat"
  assumes within: "\<And>i. fst (draw i) < m \<and> snd (draw i) < n"
    and enough: "k \<le> card {p. (int (fst p), int (snd p)) \<notin> forbiddenSet m n sr sc \<and> (\<exists>i. draw i = p)}"
  shows "\<exists>N b'. \<forall>N' \<ge> N. plantMines (makeEmptyBoard m n) m n k sr sc (map draw [0..<N']) = Inr b'"
proof -
  let ?F = "forbiddenSet m n sr sc"
  let ?A = "{p. (int (fst p), int (snd p)) \<notin> ?F \<and> (\<exists>i. draw i = p)}"
  have "?A \<subseteq> {0..<m} \<times> {0..<n}"
  proof
    fix p assume "p \<in> ?A"
    then obtain i where "draw i = p" by blast
    with within[of i] show "p \<in> {0..<m} \<times> {0..<n}" by (cases p) auto
  qed
  then have fin: "finite ?A" by (rule finite_subset) simp
  define idx where "idx p = (LEAST i. draw i = p)" for p
  have idx: "draw (idx p) = p" if "p \<in> ?A" for p
  proof -
    from that have "\<exists>i. draw i = p" by blast
    then show ?thesis unfolding idx_def by (rule LeastI_ex)
  qed
  define N where "N = Suc (Max (insert 0 (idx ` ?A)))"
  have lt: "idx p < N" if "p \<in> ?A" for p
  proof -
    have "idx p \<le> Max (insert 0 (idx ` ?A))" using fin that by (intro Max_ge) auto
    then show ?thesis by (simp add: N_def)
  qed
  let ?smp = "map draw [0..<N]"
  have dw: "drawsWithin m n ?smp" using within by (simp add: drawsWithin_def list_all_iff case_prod_unfold)
  have "?A \<subseteq> set (filter (\<lambda>(r, c). (int r, int c) \<notin> ?F) ?smp)"
  proof
    fix p assume p: "p \<in> ?A"
    from idx[OF p] lt[OF p] have "p \<in> set ?smp" by (auto intro: image_eqI[where x = "idx p"])
    moreover from p have "(int (fst p), int (snd p)) \<notin> ?F" by blast
    ultimately show "p \<in> set (filter (\<lambda>(r, c). (int r, int c) \<notin> ?F) ?smp)"
      by (simp add: case_prod_unfold)
  qed
  then have "card ?A \<le> card (set (filter (\<lambda>(r, c). (int r, int c) \<notin> ?F) ?smp))"
    by (intro card_mono) simp_all
  with enough have "k \<le> length (freshDraws m n sr sc ?smp)"
    by (simp only: freshDraws_def length_remdups_card_conv)
  with plantMines_returns[OF dw, of k sr sc] obtain b' where
    run: "plantMines (makeEmptyBoard m n) m n k sr sc ?smp = Inr b'" by auto
  have "plantMines (makeEmptyBoard m n) m n k sr sc (map draw [0..<N']) = Inr b'"
    if "N \<le> N'" for N'
  proof -
    from that obtain e where e: "N' = N + e" by (auto simp: le_iff_add)
    have "[0..<N + e] = [0..<N] @ [N..<N + e]" by (rule upt_add_eq_append) simp
    then have "map draw [0..<N'] = ?smp @ map draw [N..<N']" by (simp add: e)
    with plantMines_append[OF run] show ?thesis by simp
  qed
  then show ?thesis by blast
qed

section \<open>An example of draws\<close>

text \<open>The draws of the example: thirteen samples, three of them rejected.\<close>

definition beginnerDraws :: "(nat \<times> nat) list" where
  "beginnerDraws =
     [(4,4), (0,0), (0,0), (3,3), (0,8), (8,0), (8,8), (2,2), (2,6), (6,2), (6,6), (1,4), (7,4)]"

section \<open>Cascade resolver (cloneBoard and floodReveal, lines 64 to 90)\<close>

text \<open>\<open>{ ...cell }\<close> copies the four fields, so the clone is equal to the board as a value.\<close>

definition cloneBoard :: "cell list list \<Rightarrow> cell list list" where
  "cloneBoard board = map (\<lambda>row. map (\<lambda>cell. cell) row) board"

text \<open>
  The \<open>for\<close> loop over the neighbours of the dequeued cell. \<open>board[nr][nc]\<close> is read
  before the test (it throws when the row is missing); the cell's fields are read only when
  the key has not been seen.
\<close>

fun floodNeighbors ::
  "cell list list \<Rightarrow> nat \<Rightarrow> nat \<Rightarrow> (int \<times> int) list \<Rightarrow> (int \<times> int) list \<Rightarrow> (int \<times> int) set
     \<Rightarrow> error + (cell list list \<times> (int \<times> int) list \<times> (int \<times> int) set)"
where
  "floodNeighbors board rows cols [] q seen = Inr (board, q, seen)"
| "floodNeighbors board rows cols ((nr, nc) # ns) q seen =
     (if \<not> inBounds nr nc rows cols then floodNeighbors board rows cols ns q seen
      else if \<not> nat nr < length board then Inl TypeError
      else if (nr, nc) \<in> seen then floodNeighbors board rows cols ns q seen
      else (case cellAt board nr nc of
              None \<Rightarrow> Inl TypeError
            | Some cell \<Rightarrow>
                if \<not> isRevealed cell \<and> \<not> isFlagged cell \<and> \<not> isMine cell
                then floodNeighbors (setCell board nr nc (cell\<lparr>isRevealed := True\<rparr>)) rows cols ns
                       (if count cell = 0 then q @ [(nr, nc)] else q) (insert (nr, nc) seen)
                else floodNeighbors board rows cols ns q seen))"

definition unrevealed :: "cell list list \<Rightarrow> nat" where
  "unrevealed b = length (filter (\<lambda>cl. \<not> isRevealed cl) (concat b))"

lemma unrevealed_reveal_le:
  "cellAt b r c = Some cl \<Longrightarrow> unrevealed (setCell b r c (cl\<lparr>isRevealed := True\<rparr>)) \<le> unrevealed b"
  using tally_setCell[of b r c cl "\<lambda>cl. \<not> isRevealed cl" "cl\<lparr>isRevealed := True\<rparr>"]
  by (simp add: unrevealed_def split: if_splits)

lemma unrevealed_reveal_less:
  "cellAt b r c = Some cl \<Longrightarrow> \<not> isRevealed cl \<Longrightarrow>
   Suc (unrevealed (setCell b r c (cl\<lparr>isRevealed := True\<rparr>))) = unrevealed b"
  using tally_setCell[of b r c cl "\<lambda>cl. \<not> isRevealed cl" "cl\<lparr>isRevealed := True\<rparr>"]
  by (simp add: unrevealed_def)

lemma floodNeighbors_measure:
  "floodNeighbors b m n ns q seen = Inr (b', q', seen') \<Longrightarrow>
   unrevealed b' + length q' \<le> unrevealed b + length q"
proof (induction ns arbitrary: b q seen)
  case Nil
  then show ?case by simp
next
  case (Cons p ns)
  obtain nr nc where p: "p = (nr, nc)" by (cases p)
  show ?case
  proof (cases "\<not> inBounds nr nc m n \<or> (nr, nc) \<in> seen")
    case True
    with Cons.prems have "floodNeighbors b m n ns q seen = Inr (b', q', seen')"
      by (auto simp: p split: if_splits)
    from Cons.IH[OF this] show ?thesis .
  next
    case False
    with Cons.prems obtain cl where at: "cellAt b nr nc = Some cl"
      by (cases "cellAt b nr nc") (auto simp: p split: if_splits)
    show ?thesis
    proof (cases "\<not> isRevealed cl \<and> \<not> isFlagged cl \<and> \<not> isMine cl")
      case True
      with False at Cons.prems have
        "floodNeighbors (setCell b nr nc (cl\<lparr>isRevealed := True\<rparr>)) m n ns
           (if count cl = 0 then q @ [(nr, nc)] else q) (insert (nr, nc) seen) = Inr (b', q', seen')"
        by (auto simp: p split: if_splits)
      from Cons.IH[OF this] unrevealed_reveal_less[OF at] True show ?thesis
        by (auto split: if_splits)
    next
      case nope: False
      with False at Cons.prems have "floodNeighbors b m n ns q seen = Inr (b', q', seen')"
        by (auto simp: p split: if_splits)
      from Cons.IH[OF this] show ?thesis .
    qed
  qed
qed

text \<open>
  The \<open>while (q.length)\<close> loop: \<open>q.shift()\<close> takes the head of the queue, \<open>q.push\<close>
  appends at its end.
\<close>

function floodLoop ::
  "cell list list \<Rightarrow> nat \<Rightarrow> nat \<Rightarrow> (int \<times> int) list \<Rightarrow> (int \<times> int) set \<Rightarrow> error + cell list list"
where
  "floodLoop board rows cols [] seen = Inr board"
| "floodLoop board rows cols ((r, c) # q) seen =
     (case cellAt board r c of
        None \<Rightarrow> Inl TypeError
      | Some cell \<Rightarrow>
          if count cell = 0 then
            (case floodNeighbors (setCell board r c (cell\<lparr>isRevealed := True\<rparr>)) rows cols
                    (neighbors r c) q seen of
               Inl e \<Rightarrow> Inl e
             | Inr (board', q', seen') \<Rightarrow> floodLoop board' rows cols q' seen')
          else floodLoop (setCell board r c (cell\<lparr>isRevealed := True\<rparr>)) rows cols q seen)"
  by pat_completeness auto
termination
proof (relation "measure (\<lambda>(b, m, n, q, seen). unrevealed b + length q)")
  show "wf (measure (\<lambda>(b, m, n, q, seen). unrevealed b + length q))" by simp
next
  fix board :: "cell list list" and rows cols :: nat and r c :: int and q seen cl x2 board' y q' seen'
  assume at: "cellAt board r c = Some cl" and "count cl = 0"
    and fn: "floodNeighbors (setCell board r c (cl\<lparr>isRevealed := True\<rparr>)) rows cols
               (neighbors r c) q seen = Inr x2"
    and x2: "(board', y) = x2" "(q', seen') = y"
  from fn x2 have "floodNeighbors (setCell board r c (cl\<lparr>isRevealed := True\<rparr>)) rows cols
               (neighbors r c) q seen = Inr (board', q', seen')" by simp
  from floodNeighbors_measure[OF this] unrevealed_reveal_le[OF at]
  show "((board', rows, cols, q', seen'), (board, rows, cols, (r, c) # q, seen))
          \<in> measure (\<lambda>(b, m, n, q, seen). unrevealed b + length q)" by simp
next
  fix board :: "cell list list" and rows cols :: nat and r c :: int and q seen cl
  assume at: "cellAt board r c = Some cl" and "count cl \<noteq> 0"
  from unrevealed_reveal_le[OF at]
  show "((setCell board r c (cl\<lparr>isRevealed := True\<rparr>), rows, cols, q, seen),
         (board, rows, cols, (r, c) # q, seen))
          \<in> measure (\<lambda>(b, m, n, q, seen). unrevealed b + length q)" by simp
qed

text \<open>
  \<open>floodReveal\<close>: \<open>board[0].length\<close> throws on an empty board; the queue and the seen set
  start with the start cell.
\<close>

definition floodReveal :: "cell list list \<Rightarrow> int \<Rightarrow> int \<Rightarrow> error + cell list list" where
  "floodReveal board startR startC =
     (case board of
        [] \<Rightarrow> Inl TypeError
      | row0 # _ \<Rightarrow>
          floodLoop board (length board) (length row0) [(startR, startC)] {(startR, startC)})"

section \<open>What a cascade reveals\<close>

definition eligible :: "cell list list \<Rightarrow> int \<times> int \<Rightarrow> bool" where
  "eligible b p \<longleftrightarrow>
     (case cellAt b (fst p) (snd p) of
        Some cl \<Rightarrow> \<not> isRevealed cl \<and> \<not> isFlagged cl \<and> \<not> isMine cl
      | None \<Rightarrow> False)"

definition zeroAt :: "cell list list \<Rightarrow> int \<times> int \<Rightarrow> bool" where
  "zeroAt b p \<longleftrightarrow> (case cellAt b (fst p) (snd p) of Some cl \<Rightarrow> count cl = 0 | None \<Rightarrow> False)"

definition revealedAt :: "cell list list \<Rightarrow> int \<times> int \<Rightarrow> bool" where
  "revealedAt b p \<longleftrightarrow> (case cellAt b (fst p) (snd p) of Some cl \<Rightarrow> isRevealed cl | None \<Rightarrow> False)"

inductive_set cascade :: "cell list list \<Rightarrow> int \<times> int \<Rightarrow> (int \<times> int) set"
  for b :: "cell list list" and start :: "int \<times> int"
where
  start: "start \<in> cascade b start"
| step: "p \<in> cascade b start \<Longrightarrow> zeroAt b p \<Longrightarrow> x \<in> set (neighbors (fst p) (snd p)) \<Longrightarrow>
         eligible b x \<Longrightarrow> x \<in> cascade b start"

definition revealsOnly :: "cell list list \<Rightarrow> cell list list \<Rightarrow> bool" where
  "revealsOnly b0 b \<longleftrightarrow>
     (\<forall>r c. rel_option
        (\<lambda>c0 cl. isMine cl = isMine c0 \<and> isFlagged cl = isFlagged c0 \<and> count cl = count c0 \<and>
                  (isRevealed c0 \<longrightarrow> isRevealed cl))
        (cellAt b0 r c) (cellAt b r c))"

lemma revealsOnlyD:
  assumes "revealsOnly b0 b"
  shows "rel_option
        (\<lambda>c0 cl. isMine cl = isMine c0 \<and> isFlagged cl = isFlagged c0 \<and> count cl = count c0 \<and>
                  (isRevealed c0 \<longrightarrow> isRevealed cl))
        (cellAt b0 r c) (cellAt b r c)"
  using assms by (simp add: revealsOnly_def)

lemma revealsOnly_refl: "revealsOnly b b"
  unfolding revealsOnly_def
proof (intro allI)
  fix r c
  show "rel_option
        (\<lambda>c0 cl. isMine cl = isMine c0 \<and> isFlagged cl = isFlagged c0 \<and> count cl = count c0 \<and>
                  (isRevealed c0 \<longrightarrow> isRevealed cl))
        (cellAt b r c) (cellAt b r c)"
    by (cases "cellAt b r c") auto
qed

lemma revealsOnly_reveal:
  assumes "revealsOnly b0 b" "cellAt b r c = Some cl"
  shows "revealsOnly b0 (setCell b r c (cl\<lparr>isRevealed := True\<rparr>))"
  unfolding revealsOnly_def
proof (intro allI)
  fix r' c'
  from revealsOnlyD[OF assms(1), of r' c']
  show "rel_option
        (\<lambda>c0 cl. isMine cl = isMine c0 \<and> isFlagged cl = isFlagged c0 \<and> count cl = count c0 \<and>
                  (isRevealed c0 \<longrightarrow> isRevealed cl))
        (cellAt b0 r' c') (cellAt (setCell b r c (cl\<lparr>isRevealed := True\<rparr>)) r' c')"
    using assms(2) by (cases "cellAt b0 r' c'") (auto simp: cellAt_setCell'[OF assms(2)])
qed

lemma ro_zero: "revealsOnly b0 b \<Longrightarrow> zeroAt b p = zeroAt b0 p"
  using revealsOnlyD[of b0 b "fst p" "snd p"]
  by (cases "cellAt b0 (fst p) (snd p)"; cases "cellAt b (fst p) (snd p)") (auto simp: zeroAt_def)

lemma ro_revealed: "revealsOnly b0 b \<Longrightarrow> revealedAt b0 p \<Longrightarrow> revealedAt b p"
  using revealsOnlyD[of b0 b "fst p" "snd p"]
  by (cases "cellAt b0 (fst p) (snd p)"; cases "cellAt b (fst p) (snd p)") (auto simp: revealedAt_def)

lemma ro_eligible:
  "revealsOnly b0 b \<Longrightarrow> cellAt b (fst p) (snd p) = Some cl \<Longrightarrow>
   \<not> isRevealed cl \<Longrightarrow> \<not> isFlagged cl \<Longrightarrow> \<not> isMine cl \<Longrightarrow> eligible b0 p"
  using revealsOnlyD[of b0 b "fst p" "snd p"]
  by (cases "cellAt b0 (fst p) (snd p)") (auto simp: eligible_def)

lemma ro_eligible_now:
  "revealsOnly b0 b \<Longrightarrow> eligible b0 p \<Longrightarrow>
   \<exists>cl. cellAt b (fst p) (snd p) = Some cl \<and> \<not> isFlagged cl \<and> \<not> isMine cl"
  using revealsOnlyD[of b0 b "fst p" "snd p"]
  by (cases "cellAt b0 (fst p) (snd p)"; cases "cellAt b (fst p) (snd p)") (auto simp: eligible_def)

lemma ro_zero_cell:
  "revealsOnly b0 b \<Longrightarrow> zeroAt b0 p \<Longrightarrow> \<exists>cl. cellAt b (fst p) (snd p) = Some cl \<and> count cl = 0"
  using revealsOnlyD[of b0 b "fst p" "snd p"]
  by (cases "cellAt b0 (fst p) (snd p)"; cases "cellAt b (fst p) (snd p)") (auto simp: zeroAt_def)

lemma revealedAt_reveal:
  "cellAt b r c = Some cl \<Longrightarrow>
   revealedAt (setCell b r c (cl\<lparr>isRevealed := True\<rparr>)) x = (x = (r, c) \<or> revealedAt b x)"
  by (cases x) (auto simp: revealedAt_def cellAt_setCell')

lemma revealedAt_cell: "cellAt b (fst p) (snd p) = Some cl \<Longrightarrow> revealedAt b p = isRevealed cl"
  by (simp add: revealedAt_def)

definition covered :: "cell list list \<Rightarrow> cell list list \<Rightarrow> (int \<times> int) list \<Rightarrow> int \<times> int \<Rightarrow> bool" where
  "covered b0 b q p \<longleftrightarrow>
     (\<forall>x \<in> set (neighbors (fst p) (snd p)). eligible b0 x \<longrightarrow> revealedAt b x \<or> x \<in> set q)"

definition floodInv ::
  "cell list list \<Rightarrow> int \<times> int \<Rightarrow> nat \<Rightarrow> nat \<Rightarrow> (int \<times> int) set \<Rightarrow>
   cell list list \<Rightarrow> (int \<times> int) list \<Rightarrow> (int \<times> int) set \<Rightarrow> bool"
where
  "floodInv b0 S m n X b q seen \<longleftrightarrow>
     rect m n b \<and> revealsOnly b0 b \<and>
     (\<forall>p. revealedAt b p \<and> \<not> revealedAt b0 p \<longrightarrow> p \<in> cascade b0 S) \<and>
     (\<forall>p \<in> set q. p \<in> cascade b0 S \<and> zeroAt b0 p) \<and>
     (\<forall>p \<in> seen. revealedAt b p \<or> p \<in> set q) \<and>
     (\<forall>p \<in> cascade b0 S. p \<notin> X \<and> zeroAt b0 p \<and> revealedAt b p \<and> p \<notin> set q \<longrightarrow> covered b0 b q p) \<and>
     (S \<in> set q \<or> revealedAt b S)"

lemma covered_mono:
  assumes "covered b0 b q p" "\<And>x. revealedAt b x \<Longrightarrow> revealedAt b' x"
    "\<And>x. x \<in> set q \<Longrightarrow> x \<in> set q' \<or> revealedAt b' x"
  shows "covered b0 b' q' p"
  using assms unfolding covered_def by blast

lemma floodInv_pop:
  assumes inv: "floodInv b0 S m n {} b (p # q) seen"
    and at: "cellAt b (fst p) (snd p) = Some cl"
  shows "floodInv b0 S m n {p} (setCell b (fst p) (snd p) (cl\<lparr>isRevealed := True\<rparr>)) q seen"
proof -
  let ?b = "setCell b (fst p) (snd p) (cl\<lparr>isRevealed := True\<rparr>)"
  have rv: "revealedAt ?b x = (x = p \<or> revealedAt b x)" for x
    using revealedAt_reveal[OF at, of x] by simp
  from inv have
    i1: "rect m n b" and i2: "revealsOnly b0 b"
    and i3: "\<And>x. revealedAt b x \<Longrightarrow> \<not> revealedAt b0 x \<Longrightarrow> x \<in> cascade b0 S"
    and i4: "\<And>x. x \<in> set (p # q) \<Longrightarrow> x \<in> cascade b0 S \<and> zeroAt b0 x"
    and i5: "\<And>x. x \<in> seen \<Longrightarrow> revealedAt b x \<or> x \<in> set (p # q)"
    and i6: "\<And>x. x \<in> cascade b0 S \<Longrightarrow> zeroAt b0 x \<Longrightarrow> revealedAt b x \<Longrightarrow> x \<notin> set (p # q)
                \<Longrightarrow> covered b0 b (p # q) x"
    and i7: "S \<in> set (p # q) \<or> revealedAt b S"
    unfolding floodInv_def by blast+
  have "rect m n ?b" by (rule rect_setCell[OF i1])
  moreover have "revealsOnly b0 ?b" by (rule revealsOnly_reveal[OF i2 at])
  moreover have "\<forall>x. revealedAt ?b x \<and> \<not> revealedAt b0 x \<longrightarrow> x \<in> cascade b0 S"
    using i3 i4[of p] by (auto simp: rv)
  moreover have "\<forall>x \<in> set q. x \<in> cascade b0 S \<and> zeroAt b0 x" using i4 by simp
  moreover have "\<forall>x \<in> seen. revealedAt ?b x \<or> x \<in> set q" using i5 by (auto simp: rv)
  moreover have "\<forall>x \<in> cascade b0 S. x \<notin> {p} \<and> zeroAt b0 x \<and> revealedAt ?b x \<and> x \<notin> set q
                   \<longrightarrow> covered b0 ?b q x"
  proof (intro ballI impI)
    fix x assume x: "x \<in> cascade b0 S" "x \<notin> {p} \<and> zeroAt b0 x \<and> revealedAt ?b x \<and> x \<notin> set q"
    then have "covered b0 b (p # q) x" using i6[of x] by (auto simp: rv)
    then show "covered b0 ?b q x"
      by (rule covered_mono) (auto simp: rv)
  qed
  moreover have "S \<in> set q \<or> revealedAt ?b S" using i7 by (auto simp: rv)
  ultimately show ?thesis unfolding floodInv_def by blast
qed

lemma floodInv_neighbor:
  assumes inv: "floodInv b0 S m n {p} b q seen"
    and p: "p \<in> cascade b0 S" "zeroAt b0 p"
    and x: "x \<in> set (neighbors (fst p) (snd p))"
    and at: "cellAt b (fst x) (snd x) = Some cl"
    and cl: "\<not> isRevealed cl" "\<not> isFlagged cl" "\<not> isMine cl"
  shows "floodInv b0 S m n {p} (setCell b (fst x) (snd x) (cl\<lparr>isRevealed := True\<rparr>))
           (if count cl = 0 then q @ [x] else q) (insert x seen)"
proof -
  let ?b = "setCell b (fst x) (snd x) (cl\<lparr>isRevealed := True\<rparr>)"
  let ?q = "if count cl = 0 then q @ [x] else q"
  have rv: "revealedAt ?b y = (y = x \<or> revealedAt b y)" for y
    using revealedAt_reveal[OF at, of y] by simp
  from inv have
    i1: "rect m n b" and i2: "revealsOnly b0 b"
    and i3: "\<And>x. revealedAt b x \<Longrightarrow> \<not> revealedAt b0 x \<Longrightarrow> x \<in> cascade b0 S"
    and i4: "\<And>x. x \<in> set q \<Longrightarrow> x \<in> cascade b0 S \<and> zeroAt b0 x"
    and i5: "\<And>x. x \<in> seen \<Longrightarrow> revealedAt b x \<or> x \<in> set q"
    and i6: "\<And>x. x \<in> cascade b0 S \<Longrightarrow> x \<noteq> p \<Longrightarrow> zeroAt b0 x \<Longrightarrow> revealedAt b x \<Longrightarrow> x \<notin> set q
                \<Longrightarrow> covered b0 b q x"
    and i7: "S \<in> set q \<or> revealedAt b S"
    unfolding floodInv_def by blast+
  have el: "eligible b0 x" by (rule ro_eligible[OF i2 at cl])
  have xC: "x \<in> cascade b0 S" by (rule cascade.step[OF p x el])
  have z: "zeroAt b0 x \<longleftrightarrow> count cl = 0"
    using ro_zero[OF i2, of x] at by (simp add: zeroAt_def)
  have xr: "\<not> revealedAt b x" using at cl by (simp add: revealedAt_def)
  have qsub: "set q \<subseteq> set ?q" by auto
  have "rect m n ?b" by (rule rect_setCell[OF i1])
  moreover have "revealsOnly b0 ?b" by (rule revealsOnly_reveal[OF i2 at])
  moreover have "\<forall>y. revealedAt ?b y \<and> \<not> revealedAt b0 y \<longrightarrow> y \<in> cascade b0 S"
    using i3 xC by (auto simp: rv)
  moreover have "\<forall>y \<in> set ?q. y \<in> cascade b0 S \<and> zeroAt b0 y"
    using i4 xC z by (auto split: if_splits)
  moreover have "\<forall>y \<in> insert x seen. revealedAt ?b y \<or> y \<in> set ?q"
    using i5 by (auto simp: rv)
  moreover have "\<forall>y \<in> cascade b0 S. y \<notin> {p} \<and> zeroAt b0 y \<and> revealedAt ?b y \<and> y \<notin> set ?q
                   \<longrightarrow> covered b0 ?b ?q y"
  proof (intro ballI impI)
    fix y assume y: "y \<in> cascade b0 S" "y \<notin> {p} \<and> zeroAt b0 y \<and> revealedAt ?b y \<and> y \<notin> set ?q"
    have "y \<noteq> x" using y(2) z by (auto split: if_splits)
    with y have "covered b0 b q y" using i6[of y] qsub by (auto simp: rv)
    then show "covered b0 ?b ?q y"
      by (rule covered_mono) (auto simp: rv)
  qed
  moreover have "S \<in> set ?q \<or> revealedAt ?b S" using i7 by (auto simp: rv)
  ultimately show ?thesis unfolding floodInv_def by blast
qed

lemma floodInv_close:
  assumes "floodInv b0 S m n {p} b q seen" "covered b0 b q p"
  shows "floodInv b0 S m n {} b q seen"
  using assms by (auto simp: floodInv_def)

lemma floodInv_mono_facts:
  assumes "floodInv b0 S m n X b q seen"
  shows "rect m n b" "revealsOnly b0 b"
  using assms by (auto simp: floodInv_def)

lemma floodNeighbors_inv:
  assumes p: "p \<in> cascade b0 S" "zeroAt b0 p"
  shows "set ns \<subseteq> set (neighbors (fst p) (snd p)) \<Longrightarrow> floodInv b0 S m n {p} b q seen \<Longrightarrow>
     \<exists>b' q' seen'. floodNeighbors b m n ns q seen = Inr (b', q', seen') \<and>
        floodInv b0 S m n {p} b' q' seen' \<and>
        (\<forall>x \<in> set ns. eligible b0 x \<longrightarrow> revealedAt b' x \<or> x \<in> set q') \<and>
        (\<forall>x. revealedAt b x \<longrightarrow> revealedAt b' x) \<and> set q \<subseteq> set q'"
proof (induction ns arbitrary: b q seen)
  case Nil
  then show ?case by simp
next
  case (Cons x ns)
  obtain nr nc where x: "x = (nr, nc)" by (cases x)
  from Cons.prems have sub: "set ns \<subseteq> set (neighbors (fst p) (snd p))"
    and xn: "x \<in> set (neighbors (fst p) (snd p))" by auto
  note inv = Cons.prems(2)
  from inv have rb: "rect m n b" and ro: "revealsOnly b0 b"
    by (rule floodInv_mono_facts)+
  from inv have seenOk: "\<And>y. y \<in> seen \<Longrightarrow> revealedAt b y \<or> y \<in> set q"
    unfolding floodInv_def by blast
  text \<open>The three ways in which the neighbour is skipped leave the state as it is.\<close>
  have skip: ?case
    if run: "floodNeighbors b m n (x # ns) q seen = floodNeighbors b m n ns q seen"
      and ok: "eligible b0 x \<Longrightarrow> revealedAt b x \<or> x \<in> set q"
  proof -
    from Cons.IH[OF sub inv] obtain b' q' seen' where
      r: "floodNeighbors b m n ns q seen = Inr (b', q', seen')"
         "floodInv b0 S m n {p} b' q' seen'"
         "\<forall>x \<in> set ns. eligible b0 x \<longrightarrow> revealedAt b' x \<or> x \<in> set q'"
         "\<forall>x. revealedAt b x \<longrightarrow> revealedAt b' x" "set q \<subseteq> set q'" by blast
    from ok r(4,5) have "eligible b0 x \<longrightarrow> revealedAt b' x \<or> x \<in> set q'" by blast
    with r run show ?thesis by auto
  qed
  show ?case
  proof (cases "inBounds nr nc m n")
    case False
    then have "cellAt b0 nr nc = None"
      using ro rb revealsOnlyD[OF ro, of nr nc] by (auto simp: cellAt_rect)
    then have "\<not> eligible b0 x" by (simp add: eligible_def x)
    with False show ?thesis by (intro skip) (simp_all add: x)
  next
    case True
    with rb have row: "nat nr < length b" by (auto simp: inBounds_def rect_def)
    from True rb obtain cl where at: "cellAt b nr nc = Some cl" by (auto simp: cellAt_rect)
    show ?thesis
    proof (cases "(nr, nc) \<in> seen")
      case inSeen: True
      with True row seenOk[of x] show ?thesis by (intro skip) (simp_all add: x)
    next
      case notSeen: False
      show ?thesis
      proof (cases "\<not> isRevealed cl \<and> \<not> isFlagged cl \<and> \<not> isMine cl")
        case False
        have "revealedAt b x" if "eligible b0 x"
          using ro_eligible_now[OF ro that] at False by (auto simp: x revealedAt_def)
        with True row notSeen at False show ?thesis by (intro skip) (auto simp: x)
      next
        case isOpen: True
        let ?b = "setCell b nr nc (cl\<lparr>isRevealed := True\<rparr>)"
        let ?q = "if count cl = 0 then q @ [(nr, nc)] else q"
        have run: "floodNeighbors b m n (x # ns) q seen
                     = floodNeighbors ?b m n ns ?q (insert (nr, nc) seen)"
          using True row notSeen at isOpen by (simp add: x)
        have inv': "floodInv b0 S m n {p} ?b ?q (insert (nr, nc) seen)"
          using floodInv_neighbor[OF inv p xn, of cl] at isOpen unfolding x fst_conv snd_conv by blast
        from Cons.IH[OF sub inv'] obtain b' q' seen' where
          r: "floodNeighbors ?b m n ns ?q (insert (nr, nc) seen) = Inr (b', q', seen')"
             "floodInv b0 S m n {p} b' q' seen'"
             "\<forall>x \<in> set ns. eligible b0 x \<longrightarrow> revealedAt b' x \<or> x \<in> set q'"
             "\<forall>x. revealedAt ?b x \<longrightarrow> revealedAt b' x" "set ?q \<subseteq> set q'" by blast
        have rv: "revealedAt ?b y = (y = (nr, nc) \<or> revealedAt b y)" for y
          by (rule revealedAt_reveal[OF at])
        have "revealedAt b' x" using r(4) by (simp add: rv x)
        moreover have "\<forall>y. revealedAt b y \<longrightarrow> revealedAt b' y" using r(4) by (simp add: rv)
        moreover have "set q \<subseteq> set q'" using r(5) by (auto split: if_splits)
        ultimately show ?thesis using r(1,2,3) run by auto
      qed
    qed
  qed
qed

lemma floodLoop_inv:
  "floodInv b0 S m n {} b q seen \<Longrightarrow>
   \<exists>b' seen'. floodLoop b m n q seen = Inr b' \<and> floodInv b0 S m n {} b' [] seen'"
proof (induction b m n q seen rule: floodLoop.induct)
  case (1 board rows cols seen)
  then show ?case by auto
next
  case (2 board rows cols r c q seen)
  note inv = "2.prems"
  let ?p = "(r, c)"
  from inv have ro: "revealsOnly b0 board" by (rule floodInv_mono_facts)
  from inv have pC: "?p \<in> cascade b0 S" "zeroAt b0 ?p" unfolding floodInv_def by auto
  from ro_zero_cell[OF ro pC(2)] obtain cl where
    at: "cellAt board r c = Some cl" and z: "count cl = 0" by auto
  let ?b = "setCell board r c (cl\<lparr>isRevealed := True\<rparr>)"
  have inv1: "floodInv b0 S rows cols {?p} ?b q seen"
    using floodInv_pop[OF inv, of cl] at by simp
  from floodNeighbors_inv[OF pC _ inv1, of "neighbors r c"] obtain b' q' seen' where
    r: "floodNeighbors ?b rows cols (neighbors r c) q seen = Inr (b', q', seen')"
       "floodInv b0 S rows cols {?p} b' q' seen'"
       "\<forall>x \<in> set (neighbors r c). eligible b0 x \<longrightarrow> revealedAt b' x \<or> x \<in> set q'"
    by auto
  have "covered b0 b' q' ?p" using r(3) by (simp add: covered_def)
  from floodInv_close[OF r(2) this] have inv2: "floodInv b0 S rows cols {} b' q' seen'" .
  from "2.IH"(1)[OF at z r(1) refl refl inv2] obtain b'' seen'' where
    "floodLoop b' rows cols q' seen' = Inr b''" "floodInv b0 S rows cols {} b'' [] seen''"
    by blast
  with at z r(1) show ?case by auto
qed

lemma cascade_eligible: "p \<in> cascade b S \<Longrightarrow> p = S \<or> eligible b p"
  by (induction rule: cascade.induct) auto

lemma cell_eqI:
  fixes x y :: cell
  assumes "isMine x = isMine y" "isRevealed x = isRevealed y" "isFlagged x = isFlagged y"
    "count x = count y"
  shows "x = y"
  using assms by (cases x; cases y) simp

lemma floodReveal_spec:
  assumes rb: "rect m n b" and at: "cellAt b r c = Some cl" and z: "count cl = 0"
    and unrev: "\<not> isRevealed cl"
  shows "\<exists>b'. floodReveal b r c = Inr b' \<and> rect m n b' \<and>
           (\<forall>r' c'. cellAt b' r' c' =
              map_option (\<lambda>x. if (r', c') \<in> cascade b (r, c) then x\<lparr>isRevealed := True\<rparr> else x)
                (cellAt b r' c'))"
proof -
  let ?S = "(r, c)"
  from at have ne: "b \<noteq> []" by (auto simp: cellAt_def split: if_splits)
  then obtain row0 rest where b: "b = row0 # rest" by (cases b) auto
  with rb have dims: "length b = m" "length row0 = n" by (auto simp: rect_def)
  have zS: "zeroAt b ?S" using at z by (simp add: zeroAt_def)
  have init: "floodInv b ?S m n {} b [?S] {?S}"
    unfolding floodInv_def
  proof (intro conjI)
    show "\<forall>p \<in> cascade b ?S.
            p \<notin> {} \<and> zeroAt b p \<and> revealedAt b p \<and> p \<notin> set [?S] \<longrightarrow> covered b b [?S] p"
    proof (intro ballI impI)
      fix p assume "p \<in> cascade b ?S" "p \<notin> {} \<and> zeroAt b p \<and> revealedAt b p \<and> p \<notin> set [?S]"
      with cascade_eligible[of p b ?S] have "eligible b p" "revealedAt b p" by auto
      then have False
        by (cases "cellAt b (fst p) (snd p)") (auto simp: eligible_def revealedAt_def)
      then show "covered b b [?S] p" ..
    qed
  qed (use rb zS in \<open>auto simp: revealsOnly_refl cascade.start\<close>)
  from floodLoop_inv[OF init] obtain b' seen' where
    run: "floodLoop b m n [?S] {?S} = Inr b'" and fin: "floodInv b ?S m n {} b' [] seen'"
    by blast
  from fin have rb': "rect m n b'" and ro: "revealsOnly b b'"
    and sound: "\<And>p. revealedAt b' p \<Longrightarrow> \<not> revealedAt b p \<Longrightarrow> p \<in> cascade b ?S"
    and cov: "\<And>p. p \<in> cascade b ?S \<Longrightarrow> zeroAt b p \<Longrightarrow> revealedAt b' p \<Longrightarrow> covered b b' [] p"
    and st: "revealedAt b' ?S"
    unfolding floodInv_def by auto
  have complete: "revealedAt b' p" if "p \<in> cascade b ?S" for p
    using that
  proof (induction rule: cascade.induct)
    case start
    show ?case by (rule st)
  next
    case (step p x)
    from cov[OF step.hyps(1,2) step.IH] step.hyps(3,4) show ?case
      by (auto simp: covered_def)
  qed
  have pw: "cellAt b' r' c' =
              map_option (\<lambda>x. if (r', c') \<in> cascade b ?S then x\<lparr>isRevealed := True\<rparr> else x)
                (cellAt b r' c')" for r' c'
  proof (cases "cellAt b r' c'")
    case None
    with revealsOnlyD[OF ro, of r' c'] show ?thesis by simp
  next
    case (Some c0)
    with revealsOnlyD[OF ro, of r' c'] obtain c1 where
      c1: "cellAt b' r' c' = Some c1" "isMine c1 = isMine c0" "isFlagged c1 = isFlagged c0"
          "count c1 = count c0" "isRevealed c0 \<longrightarrow> isRevealed c1"
      by (cases "cellAt b' r' c'") auto
    have "isRevealed c1 \<longleftrightarrow> isRevealed c0 \<or> (r', c') \<in> cascade b ?S"
      using complete[of "(r', c')"] sound[of "(r', c')"] c1(1,5) Some
      by (auto simp: revealedAt_def)
    then have "c1 = (if (r', c') \<in> cascade b ?S then c0\<lparr>isRevealed := True\<rparr> else c0)"
      using c1(2,3,4) by (auto intro!: cell_eqI)
    with c1(1) Some show ?thesis by simp
  qed
  have "floodReveal b r c = Inr b'"
    using run dims by (simp add: floodReveal_def b)
  with rb' pw show ?thesis by blast
qed

text \<open>
  The same set in the words of the specification: the connected region of zero-count
  cells around the start, where a cell can be entered only if it is unrevealed, unflagged
  and not a mine, together with the cells of non-zero count that border the region and are
  unrevealed, unflagged and not mines.
\<close>

inductive_set zeroRegion :: "cell list list \<Rightarrow> int \<times> int \<Rightarrow> (int \<times> int) set"
  for b :: "cell list list" and start :: "int \<times> int"
where
  start: "start \<in> zeroRegion b start"
| step: "p \<in> zeroRegion b start \<Longrightarrow> x \<in> set (neighbors (fst p) (snd p)) \<Longrightarrow>
         eligible b x \<Longrightarrow> zeroAt b x \<Longrightarrow> x \<in> zeroRegion b start"

definition border :: "cell list list \<Rightarrow> int \<times> int \<Rightarrow> (int \<times> int) set" where
  "border b start =
     {x. \<exists>p \<in> zeroRegion b start.
           x \<in> set (neighbors (fst p) (snd p)) \<and> eligible b x \<and> \<not> zeroAt b x}"

lemma zeroRegion_zero: "p \<in> zeroRegion b S \<Longrightarrow> zeroAt b S \<Longrightarrow> zeroAt b p"
  by (induction rule: zeroRegion.induct) auto

lemma zeroRegion_cascade: "p \<in> zeroRegion b S \<Longrightarrow> zeroAt b S \<Longrightarrow> p \<in> cascade b S"
proof (induction rule: zeroRegion.induct)
  case start
  show ?case by (rule cascade.start)
next
  case (step p x)
  from step.IH[OF step.prems] zeroRegion_zero[OF step.hyps(1) step.prems] step.hyps(2,3)
  show ?case by (rule cascade.step)
qed

lemma cascade_region:
  assumes "zeroAt b S"
  shows "cascade b S = zeroRegion b S \<union> border b S"
proof (intro set_eqI iffI)
  fix p assume "p \<in> cascade b S"
  then show "p \<in> zeroRegion b S \<union> border b S"
  proof (induction rule: cascade.induct)
    case start
    show ?case by (simp add: zeroRegion.start)
  next
    case (step p x)
    from step.IH step.hyps(2) have pz: "p \<in> zeroRegion b S" by (auto simp: border_def)
    show ?case
    proof (cases "zeroAt b x")
      case True
      with pz step.hyps(3,4) have "x \<in> zeroRegion b S" by (rule zeroRegion.step)
      then show ?thesis by simp
    next
      case False
      with pz step.hyps(3,4) have "x \<in> border b S" by (auto simp: border_def)
      then show ?thesis by simp
    qed
  qed
next
  fix p assume "p \<in> zeroRegion b S \<union> border b S"
  then show "p \<in> cascade b S"
  proof
    assume "p \<in> zeroRegion b S"
    then show ?thesis using assms by (rule zeroRegion_cascade)
  next
    assume "p \<in> border b S"
    then obtain p0 where p0: "p0 \<in> zeroRegion b S" "p \<in> set (neighbors (fst p0) (snd p0))"
      "eligible b p" by (auto simp: border_def)
    from zeroRegion_cascade[OF p0(1) assms] zeroRegion_zero[OF p0(1) assms] p0(2,3)
    show ?thesis by (rule cascade.step)
  qed
qed

section \<open>Claims about the cascade\<close>

text \<open>
  The region as a reading of the words "connected component of zero-count cells, where
  flagged cells block membership and propagation" alone: a neighbour is entered when its
  count is zero and it is not flagged, whether or not it has been revealed before.
\<close>

inductive_set claimedRegion :: "cell list list \<Rightarrow> int \<times> int \<Rightarrow> (int \<times> int) set"
  for b :: "cell list list" and start :: "int \<times> int"
where
  start: "start \<in> claimedRegion b start"
| step: "p \<in> claimedRegion b start \<Longrightarrow> x \<in> set (neighbors (fst p) (snd p)) \<Longrightarrow>
         cellAt b (fst x) (snd x) = Some cl \<Longrightarrow> count cl = 0 \<Longrightarrow> \<not> isFlagged cl \<Longrightarrow>
         x \<in> claimedRegion b start"

text \<open>A row of three zero-count cells without mines or flags, the middle one revealed.\<close>

definition exampleRow :: "cell list list" where
  "exampleRow = [[emptyCell, emptyCell\<lparr>isRevealed := True\<rparr>, emptyCell]]"

text \<open>The Beginner board after the first click at \<open>(4, 4)\<close> with the draws of the example.\<close>

definition beginnerBoard :: "cell list list" where
  "beginnerBoard =
     (case plantMines (makeEmptyBoard 9 9) 9 9 10 4 4 beginnerDraws of
        Inr b \<Rightarrow> b | Inl e \<Rightarrow> [])"

text \<open>
  Claim C2, as the code has it. On a rectangular board, from a start cell that has count
  zero and is neither a mine nor flagged nor revealed, \<open>floodReveal\<close> returns, and the
  board it returns is the given one with \<open>isRevealed\<close> set on exactly the cells of the
  zero-count region of the start and of its border. A cell enters the region or the border
  only if it is unrevealed, unflagged and not a mine: besides flagged cells, cells revealed
  earlier block the cascade too. No other cell and no other field changes, so no mine and
  no flagged cell is revealed.
\<close>

theorem floodReveal_reveals_region:
  assumes "rect m n b" "cellAt b r c = Some cl" "count cl = 0"
    "\<not> isMine cl" "\<not> isFlagged cl" "\<not> isRevealed cl"
  shows "\<exists>b'. floodReveal b r c = Inr b' \<and> rect m n b' \<and>
           (\<forall>r' c'. cellAt b' r' c' =
              map_option
                (\<lambda>x. if (r', c') \<in> zeroRegion b (r, c) \<union> border b (r, c)
                      then x\<lparr>isRevealed := True\<rparr> else x)
                (cellAt b r' c')) \<and>
           (\<forall>p \<in> zeroRegion b (r, c) \<union> border b (r, c). eligible b p)"
proof -
  have zS: "zeroAt b (r, c)" using assms(2,3) by (simp add: zeroAt_def)
  have eS: "eligible b (r, c)" using assms(2,4,5,6) by (simp add: eligible_def)
  have reg: "cascade b (r, c) = zeroRegion b (r, c) \<union> border b (r, c)"
    by (rule cascade_region[OF zS])
  from floodReveal_spec[OF assms(1,2,3,6)] obtain b' where
    "floodReveal b r c = Inr b'" "rect m n b'"
    "\<forall>r' c'. cellAt b' r' c' =
              map_option (\<lambda>x. if (r', c') \<in> cascade b (r, c) then x\<lparr>isRevealed := True\<rparr> else x)
                (cellAt b r' c')" by blast
  moreover have "\<forall>p \<in> zeroRegion b (r, c) \<union> border b (r, c). eligible b p"
    using cascade_eligible[of _ b "(r, c)"] eS unfolding reg[symmetric] by blast
  ultimately show ?thesis unfolding reg by blast
qed

theorem floodReveal_reveals_region_witness:
  "rect 9 9 beginnerBoard \<and> cellAt beginnerBoard 4 4 = Some emptyCell \<and>
   (\<exists>b'. floodReveal beginnerBoard 4 4 = Inr b' \<and> rect 9 9 b' \<and>
           (\<forall>r' c'. cellAt b' r' c' =
              map_option
                (\<lambda>x. if (r', c') \<in> zeroRegion beginnerBoard (4, 4) \<union> border beginnerBoard (4, 4)
                      then x\<lparr>isRevealed := True\<rparr> else x)
                (cellAt beginnerBoard r' c')) \<and>
           (\<forall>p \<in> zeroRegion beginnerBoard (4, 4) \<union> border beginnerBoard (4, 4).
               eligible beginnerBoard p))"
proof -
  have r: "rect 9 9 beginnerBoard" by code_simp
  have c: "cellAt beginnerBoard 4 4 = Some emptyCell" by code_simp
  from floodReveal_reveals_region[OF r c] r c show ?thesis by (simp add: emptyCell_def)
qed

text \<open>
  In \<open>exampleRow\<close> the cell \<open>(0, 2)\<close> is connected to the start \<open>(0, 0)\<close> through
  zero-count unflagged cells, and the cascade from \<open>(0, 0)\<close> leaves it unrevealed: it
  stops at the revealed cell in between.
\<close>

theorem floodReveal_region_counterexample:
  "(0, 2) \<in> claimedRegion exampleRow (0, 0) \<and>
   floodReveal exampleRow 0 0 =
     Inr [[emptyCell\<lparr>isRevealed := True\<rparr>, emptyCell\<lparr>isRevealed := True\<rparr>, emptyCell]]"
proof
  have c1: "cellAt exampleRow (fst (0, 1)) (snd (0, 1)) = Some (emptyCell\<lparr>isRevealed := True\<rparr>)"
    by (simp add: exampleRow_def cellAt_def)
  have c2: "cellAt exampleRow (fst (0, 2)) (snd (0, 2)) = Some emptyCell"
    by (simp add: exampleRow_def cellAt_def)
  have "(0, 1) \<in> claimedRegion exampleRow (0, 0)"
    by (rule claimedRegion.step[OF claimedRegion.start _ c1])
       (simp_all add: neighbors_def emptyCell_def)
  then show "(0, 2) \<in> claimedRegion exampleRow (0, 0)"
    by (rule claimedRegion.step[OF _ _ c2]) (simp_all add: neighbors_def emptyCell_def)
next
  show "floodReveal exampleRow 0 0 =
     Inr [[emptyCell\<lparr>isRevealed := True\<rparr>, emptyCell\<lparr>isRevealed := True\<rparr>, emptyCell]]"
    by code_simp
qed

section \<open>Game state machine (App, lines 101 to 232)\<close>

datatype difficulty = Beginner | Intermediate | Expert

record config =
  rows :: nat
  cols :: nat
  mines :: nat

fun DIFFICULTIES :: "difficulty \<Rightarrow> config" where
  "DIFFICULTIES Beginner = \<lparr> rows = 9, cols = 9, mines = 10 \<rparr>"
| "DIFFICULTIES Intermediate = \<lparr> rows = 16, cols = 16, mines = 40 \<rparr>"
| "DIFFICULTIES Expert = \<lparr> rows = 16, cols = 30, mines = 99 \<rparr>"

datatype status = Ready | Playing | Won | Lost

text \<open>
  The state of the component: the \<open>useState\<close> cells \<open>difficulty\<close>, \<open>board\<close>,
  \<open>minesPlanted\<close>, \<open>status\<close>, \<open>revealedCount\<close> and \<open>seconds\<close>. The handlers read
  \<open>status\<close> and \<open>minesPlanted\<close> as of the last render; each intent is run to completion on
  the current state before the next one.
\<close>

record session =
  difficulty :: difficulty
  board :: "cell list list"
  minesPlanted :: bool
  status :: status
  revealedCount :: nat
  seconds :: nat

text \<open>The state after mounting, after \<open>reset\<close> and after the effect of a difficulty change.\<close>

definition newSession :: "difficulty \<Rightarrow> session" where
  "newSession d =
     \<lparr> difficulty = d,
       board = makeEmptyBoard (rows (DIFFICULTIES d)) (cols (DIFFICULTIES d)),
       minesPlanted = False, status = Ready, revealedCount = 0, seconds = 0 \<rparr>"

definition reset :: "session \<Rightarrow> session" where
  "reset s = newSession (difficulty s)"

definition countFlagged :: "cell list list \<Rightarrow> nat" where
  "countFlagged b = length (filter (\<lambda>c. isFlagged c) (concat b))"

definition flagsLeft :: "session \<Rightarrow> int" where
  "flagsLeft s = max 0 (int (mines (DIFFICULTIES (difficulty s))) - int (countFlagged (board s)))"

definition totalSafe :: "session \<Rightarrow> int" where
  "totalSafe s =
     int (rows (DIFFICULTIES (difficulty s)) * cols (DIFFICULTIES (difficulty s)))
       - int (mines (DIFFICULTIES (difficulty s)))"

definition coveredLeft :: "session \<Rightarrow> int" where
  "coveredLeft s =
     int (rows (DIFFICULTIES (difficulty s)) * cols (DIFFICULTIES (difficulty s)))
       - int (revealedCount s)"

text \<open>The interval callback of the timer, which runs while the status is \<open>playing\<close>.\<close>

definition tick :: "session \<Rightarrow> session" where
  "tick s = (if status s = Playing then s\<lparr>seconds := min 999 (seconds s + 1)\<rparr> else s)"

text \<open>The two \<open>next.map(row => row.map(...))\<close> passes of \<open>handleReveal\<close>.\<close>

definition revealMines :: "cell list list \<Rightarrow> cell list list" where
  "revealMines b = map (\<lambda>row. map (\<lambda>cel. if isMine cel then cel\<lparr>isRevealed := True\<rparr> else cel) row) b"

definition flagMines :: "cell list list \<Rightarrow> cell list list" where
  "flagMines b = map (\<lambda>row. map (\<lambda>cel. if isMine cel then cel\<lparr>isFlagged := True\<rparr> else cel) row) b"

definition countRevealedSafe :: "cell list list \<Rightarrow> nat" where
  "countRevealedSafe b = length (filter (\<lambda>cel. isRevealed cel \<and> \<not> isMine cel) (concat b))"

text \<open>
  \<open>handleReveal\<close>. \<open>samples\<close> are the draws \<open>plantMines\<close> may consume. The setters
  \<open>setMinesPlanted\<close>, \<open>setStatus\<close> and \<open>setSeconds\<close> of the first click run before the
  clicked cell is looked at; \<open>return prev\<close> keeps the board only. An exception leaves no
  next state.
\<close>

definition handleReveal :: "session \<Rightarrow> int \<Rightarrow> int \<Rightarrow> (nat \<times> nat) list \<Rightarrow> error + session" where
  "handleReveal s r c samples =
     (let d = DIFFICULTIES (difficulty s); prev = board s in
      if status s = Lost \<or> status s = Won then Inr s
      else
        (case (if \<not> minesPlanted s
               then plantMines (cloneBoard prev) (rows d) (cols d) (mines d) r c samples
               else Inr (cloneBoard prev)) of
           Inl e \<Rightarrow> Inl e
         | Inr next \<Rightarrow>
             let s1 = (if \<not> minesPlanted s
                       then s\<lparr>minesPlanted := True, status := Playing, seconds := 0\<rparr> else s) in
             (case cellAt next r c of
                None \<Rightarrow> Inl TypeError
              | Some cell \<Rightarrow>
                  if isRevealed cell \<or> isFlagged cell then Inr (s1\<lparr>board := prev\<rparr>)
                  else if isMine cell
                  then Inr (s1\<lparr>board := revealMines next, status := Lost\<rparr>)
                  else
                    (case (if count cell = 0 then floodReveal next r c
                           else Inr (setCell next r c (cell\<lparr>isRevealed := True\<rparr>))) of
                       Inl e \<Rightarrow> Inl e
                     | Inr next' \<Rightarrow>
                         let newlyRevealed = countRevealedSafe next';
                             s2 = s1\<lparr>revealedCount := newlyRevealed\<rparr> in
                         if int newlyRevealed = totalSafe s
                         then Inr (s2\<lparr>board := flagMines next', status := Won\<rparr>)
                         else Inr (s2\<lparr>board := next'\<rparr>)))))"

text \<open>\<open>handleFlag\<close>.\<close>

definition handleFlag :: "session \<Rightarrow> int \<Rightarrow> int \<Rightarrow> error + session" where
  "handleFlag s r c =
     (let prev = board s in
      if status s = Lost \<or> status s = Won then Inr s
      else
        (let flaggedPrev = countFlagged prev;
             flagsLeftNow = int (mines (DIFFICULTIES (difficulty s))) - int flaggedPrev;
             next = cloneBoard prev in
         case cellAt next r c of
           None \<Rightarrow> Inl TypeError
         | Some cell \<Rightarrow>
             if isRevealed cell then Inr (s\<lparr>board := prev\<rparr>)
             else
               (let willFlag = \<not> isFlagged cell in
                if willFlag \<and> flagsLeftNow = 0 then Inr (s\<lparr>board := prev\<rparr>)
                else Inr (s\<lparr>board := setCell next r c (cell\<lparr>isFlagged := willFlag\<rparr>)\<rparr>))))"

text \<open>
  The sessions a player can bring about: the one after mounting, and from there by
  reveals (with any draws), flag toggles, resets, difficulty changes and timer ticks.
\<close>

inductive reachable :: "session \<Rightarrow> bool" where
  mount: "reachable (newSession Beginner)"
| reveal: "reachable s \<Longrightarrow> handleReveal s r c samples = Inr s' \<Longrightarrow> reachable s'"
| flag: "reachable s \<Longrightarrow> handleFlag s r c = Inr s' \<Longrightarrow> reachable s'"
| reset: "reachable s \<Longrightarrow> reachable (reset s)"
| setDifficulty: "reachable s \<Longrightarrow> reachable (newSession d)"
| tick: "reachable s \<Longrightarrow> reachable (tick s)"

lemma cloneBoard_id [simp]: "cloneBoard b = b"
  by (simp add: cloneBoard_def)

section \<open>Relating two boards cell by cell\<close>

definition cellwise :: "(cell \<Rightarrow> cell \<Rightarrow> bool) \<Rightarrow> cell list list \<Rightarrow> cell list list \<Rightarrow> bool" where
  "cellwise R b b' \<longleftrightarrow> (\<forall>r c. rel_option R (cellAt b r c) (cellAt b' r c))"

lemma cellwiseD: "cellwise R b b' \<Longrightarrow> rel_option R (cellAt b r c) (cellAt b' r c)"
  by (simp add: cellwise_def)

lemma cellwise_mono:
  assumes "cellwise R b b'" "\<And>x y. R x y \<Longrightarrow> R' x y"
  shows "cellwise R' b b'"
  unfolding cellwise_def
proof (intro allI)
  fix r c
  from cellwiseD[OF assms(1), of r c] assms(2) show "rel_option R' (cellAt b r c) (cellAt b' r c)"
    by (cases "cellAt b r c"; cases "cellAt b' r c") auto
qed

lemma cellwise_trans:
  assumes "cellwise R b b1" "cellwise R' b1 b2"
  shows "cellwise (\<lambda>x z. \<exists>y. R x y \<and> R' y z) b b2"
  unfolding cellwise_def
proof (intro allI)
  fix r c
  from cellwiseD[OF assms(1), of r c] cellwiseD[OF assms(2), of r c]
  show "rel_option (\<lambda>x z. \<exists>y. R x y \<and> R' y z) (cellAt b r c) (cellAt b2 r c)"
    by (cases "cellAt b r c"; cases "cellAt b1 r c"; cases "cellAt b2 r c") auto
qed

lemma cellwise_refl: "(\<And>x. R x x) \<Longrightarrow> cellwise R b b"
  unfolding cellwise_def
proof (intro allI)
  fix r c assume "\<And>x. R x x"
  then show "rel_option R (cellAt b r c) (cellAt b r c)" by (cases "cellAt b r c") auto
qed

lemma cellwise_elem:
  assumes "cellwise R b b'" "y \<in> set (concat b')"
  shows "\<exists>x \<in> set (concat b). R x y"
proof -
  from assms(2) in_concat_cellAt[of y b'] obtain r c where "cellAt b' r c = Some y" by blast
  with cellwiseD[OF assms(1), of r c] obtain x where "cellAt b r c = Some x" "R x y"
    by (cases "cellAt b r c") auto
  then show ?thesis using in_concat_cellAt[of x b] by blast
qed

lemma cellwise_tally:
  assumes "rect m n b" "rect m n b'" "cellwise (\<lambda>x y. P y = P x) b b'"
  shows "length (filter P (concat b')) = length (filter P (concat b))"
proof (rule tally_cong[OF assms(1,2)])
  fix r c
  from cellwiseD[OF assms(3), of r c]
  show "map_option P (cellAt b' r c) = map_option P (cellAt b r c)"
    by (cases "cellAt b r c"; cases "cellAt b' r c") auto
qed

lemma cellAt_map: "cellAt (map (map f) b) r c = map_option f (cellAt b r c)"
  by (auto simp: cellAt_def)

lemma cellwise_map: "cellwise (\<lambda>x y. y = f x) b (map (map f) b)"
  unfolding cellwise_def
proof (intro allI)
  fix r c
  show "rel_option (\<lambda>x y. y = f x) (cellAt b r c) (cellAt (map (map f) b) r c)"
    by (cases "cellAt b r c") (auto simp: cellAt_map)
qed

lemma rect_map: "rect m n b \<Longrightarrow> rect m n (map (map f) b)"
  by (auto simp: rect_def)

lemma concat_map_map: "concat (map (map f) b) = map f (concat b)"
  by (simp add: map_concat)

lemma cellwise_setCell:
  assumes "cellAt b r c = Some cl"
  shows "cellwise (\<lambda>x y. y = x \<or> (x = cl \<and> y = cl')) b (setCell b r c cl')"
  unfolding cellwise_def
proof (intro allI)
  fix r' c'
  show "rel_option (\<lambda>x y. y = x \<or> (x = cl \<and> y = cl')) (cellAt b r' c') (cellAt (setCell b r c cl') r' c')"
    using assms by (cases "cellAt b r' c'") (auto simp: cellAt_setCell'[OF assms])
qed

lemma rect_concat_length: "rect m n b \<Longrightarrow> length (concat b) = m * n"
proof -
  assume "rect m n b"
  then have "length b = m" "\<forall>row \<in> set b. length row = n" by (auto simp: rect_def)
  then show ?thesis
  proof (induction b arbitrary: m)
    case Nil
    then show ?case by simp
  next
    case (Cons row b)
    then have "length (concat b) = length b * n" by simp
    with Cons.prems show ?case by auto
  qed
qed

section \<open>The paths through handleReveal\<close>

definition plantedBoard :: "session \<Rightarrow> int \<Rightarrow> int \<Rightarrow> (nat \<times> nat) list \<Rightarrow> error + cell list list" where
  "plantedBoard s r c smp =
     (if \<not> minesPlanted s
      then plantMines (board s) (rows (DIFFICULTIES (difficulty s)))
             (cols (DIFFICULTIES (difficulty s))) (mines (DIFFICULTIES (difficulty s))) r c smp
      else Inr (board s))"

definition started :: "session \<Rightarrow> session" where
  "started s =
     (if \<not> minesPlanted s then s\<lparr>minesPlanted := True, status := Playing, seconds := 0\<rparr> else s)"

definition opened :: "cell list list \<Rightarrow> int \<Rightarrow> int \<Rightarrow> cell \<Rightarrow> error + cell list list" where
  "opened b r c cl =
     (if count cl = 0 then floodReveal b r c else Inr (setCell b r c (cl\<lparr>isRevealed := True\<rparr>)))"

definition concluded :: "session \<Rightarrow> int \<Rightarrow> cell list list \<Rightarrow> session" where
  "concluded s1 tot b =
     (if int (countRevealedSafe b) = tot
      then s1\<lparr>revealedCount := countRevealedSafe b, board := flagMines b, status := Won\<rparr>
      else s1\<lparr>revealedCount := countRevealedSafe b, board := b\<rparr>)"

lemma started_board [simp]: "board (started s) = board s"
  and started_difficulty [simp]: "difficulty (started s) = difficulty s"
  and started_minesPlanted [simp]: "minesPlanted (started s) = True"
  and started_revealedCount [simp]: "revealedCount (started s) = revealedCount s"
  by (auto simp: started_def)

lemma started_status:
  "status (started s) = (if minesPlanted s then status s else Playing)"
  by (simp add: started_def)

lemma handleReveal_unfold:
  "handleReveal s r c smp =
     (if status s = Lost \<or> status s = Won then Inr s
      else case plantedBoard s r c smp of
             Inl e \<Rightarrow> Inl e
           | Inr next \<Rightarrow>
               (case cellAt next r c of
                  None \<Rightarrow> Inl TypeError
                | Some cl \<Rightarrow>
                    if isRevealed cl \<or> isFlagged cl then Inr (started s)
                    else if isMine cl
                    then Inr ((started s)\<lparr>board := revealMines next, status := Lost\<rparr>)
                    else (case opened next r c cl of
                            Inl e \<Rightarrow> Inl e
                          | Inr next' \<Rightarrow> Inr (concluded (started s) (totalSafe s) next'))))"
  by (auto simp: handleReveal_def Let_def plantedBoard_def started_def opened_def concluded_def
           split: sum.splits option.splits)

lemma handleReveal_cases [consumes 1, case_names terminal rejected lost opened]:
  assumes "handleReveal s r c smp = Inr s'"
  obtains
    "status s = Lost \<or> status s = Won" "s' = s"
  | nxt cl where "status s \<noteq> Lost" "status s \<noteq> Won" "plantedBoard s r c smp = Inr nxt"
      "cellAt nxt r c = Some cl" "isRevealed cl \<or> isFlagged cl" "s' = started s"
  | nxt cl where "status s \<noteq> Lost" "status s \<noteq> Won" "plantedBoard s r c smp = Inr nxt"
      "cellAt nxt r c = Some cl" "\<not> isRevealed cl" "\<not> isFlagged cl" "isMine cl"
      "s' = (started s)\<lparr>board := revealMines nxt, status := Lost\<rparr>"
  | nxt cl nxt' where "status s \<noteq> Lost" "status s \<noteq> Won" "plantedBoard s r c smp = Inr nxt"
      "cellAt nxt r c = Some cl" "\<not> isRevealed cl" "\<not> isFlagged cl" "\<not> isMine cl"
      "opened nxt r c cl = Inr nxt'" "s' = concluded (started s) (totalSafe s) nxt'"
proof (cases "status s = Lost \<or> status s = Won")
  case True
  with assms have "s' = s" by (simp add: handleReveal_unfold)
  with True that(1) show ?thesis by blast
next
  case False
  then have st: "status s \<noteq> Lost" "status s \<noteq> Won" by auto
  from assms st obtain nxt where p: "plantedBoard s r c smp = Inr nxt"
    by (cases "plantedBoard s r c smp") (simp_all add: handleReveal_unfold)
  from assms st p obtain cl where at: "cellAt nxt r c = Some cl"
    by (cases "cellAt nxt r c") (simp_all add: handleReveal_unfold)
  show ?thesis
  proof (cases "isRevealed cl \<or> isFlagged cl")
    case True
    with assms st p at have "s' = started s" by (simp add: handleReveal_unfold)
    with st p at True that(2) show ?thesis by blast
  next
    case open_cell: False
    show ?thesis
    proof (cases "isMine cl")
      case True
      with assms st p at open_cell
      have "s' = (started s)\<lparr>board := revealMines nxt, status := Lost\<rparr>"
        by (simp add: handleReveal_unfold)
      with st p at open_cell True that(3) show ?thesis by blast
    next
      case False
      with assms st p at open_cell obtain nxt' where o: "opened nxt r c cl = Inr nxt'"
        by (cases "opened nxt r c cl") (simp_all add: handleReveal_unfold)
      with assms st p at open_cell False
      have "s' = concluded (started s) (totalSafe s) nxt'"
        by (simp add: handleReveal_unfold)
      with st p at open_cell False o that(4) show ?thesis by blast
    qed
  qed
qed

lemma handleFlag_cases [consumes 1, case_names terminal revealed exhausted toggled]:
  assumes "handleFlag s r c = Inr s'"
  obtains
    "status s = Lost \<or> status s = Won" "s' = s"
  | cl where "status s \<noteq> Lost" "status s \<noteq> Won" "cellAt (board s) r c = Some cl"
      "isRevealed cl" "s' = s"
  | cl where "status s \<noteq> Lost" "status s \<noteq> Won" "cellAt (board s) r c = Some cl"
      "\<not> isRevealed cl" "\<not> isFlagged cl"
      "int (mines (DIFFICULTIES (difficulty s))) - int (countFlagged (board s)) = 0" "s' = s"
  | cl where "status s \<noteq> Lost" "status s \<noteq> Won" "cellAt (board s) r c = Some cl"
      "\<not> isRevealed cl"
      "isFlagged cl \<or> int (mines (DIFFICULTIES (difficulty s))) - int (countFlagged (board s)) \<noteq> 0"
      "s' = s\<lparr>board := setCell (board s) r c (cl\<lparr>isFlagged := \<not> isFlagged cl\<rparr>)\<rparr>"
proof (cases "status s = Lost \<or> status s = Won")
  case True
  with assms have "s' = s" by (simp add: handleFlag_def)
  with True that(1) show ?thesis by blast
next
  case False
  then have st: "status s \<noteq> Lost" "status s \<noteq> Won" by auto
  from assms st obtain cl where at: "cellAt (board s) r c = Some cl"
    by (cases "cellAt (board s) r c") (simp_all add: handleFlag_def Let_def)
  show ?thesis
  proof (cases "isRevealed cl")
    case True
    with assms st at have "s' = s" by (simp add: handleFlag_def Let_def)
    with st at True that(2) show ?thesis by blast
  next
    case unrev: False
    show ?thesis
    proof (cases "\<not> isFlagged cl \<and>
        int (mines (DIFFICULTIES (difficulty s))) - int (countFlagged (board s)) = 0")
      case True
      with assms st at unrev have "s' = s" by (simp add: handleFlag_def Let_def)
      with st at unrev True that(3) show ?thesis by blast
    next
      case False
      with assms st at unrev
      have "s' = s\<lparr>board := setCell (board s) r c (cl\<lparr>isFlagged := \<not> isFlagged cl\<rparr>)\<rparr>"
        by (auto simp: handleFlag_def Let_def)
      with st at unrev False that(4) show ?thesis by blast
    qed
  qed
qed

section \<open>What the parts of handleReveal do to the board\<close>

lemma plantMines_cellwise:
  assumes "plantMines b m n k sr sc smp = Inr b'" "rect m n b"
  shows "rect m n b'"
    and "cellwise (\<lambda>x y. isRevealed y = isRevealed x \<and> isFlagged y = isFlagged x) b b'"
proof -
  from plantMines_spec[OF assms] obtain b1 where
    r': "rect m n b'" and pf: "plantedFrom (forbiddenSet m n sr sc) b b1"
    and pw: "\<And>r c. cellAt b' r c = map_option (withCount b1 m n r c) (cellAt b1 r c)"
    by blast
  show "rect m n b'" by (rule r')
  show "cellwise (\<lambda>x y. isRevealed y = isRevealed x \<and> isFlagged y = isFlagged x) b b'"
    unfolding cellwise_def
  proof (intro allI)
    fix r c
    from pf have "rel_option
        (\<lambda>cl cl'. isRevealed cl' = isRevealed cl \<and> isFlagged cl' = isFlagged cl \<and>
                   count cl' = count cl \<and> (isMine cl \<longrightarrow> isMine cl') \<and>
                   (isMine cl' \<and> \<not> isMine cl \<longrightarrow> (r, c) \<notin> forbiddenSet m n sr sc))
        (cellAt b r c) (cellAt b1 r c)" by (simp add: plantedFrom_def)
    then show "rel_option (\<lambda>x y. isRevealed y = isRevealed x \<and> isFlagged y = isFlagged x)
                 (cellAt b r c) (cellAt b' r c)"
      unfolding pw
      by (cases "cellAt b r c"; cases "cellAt b1 r c") (auto simp: withCount_def)
  qed
qed

lemma plantedBoard_cellwise:
  assumes "plantedBoard s r c smp = Inr nxt"
    and "rect (rows (DIFFICULTIES (difficulty s))) (cols (DIFFICULTIES (difficulty s))) (board s)"
  shows "rect (rows (DIFFICULTIES (difficulty s))) (cols (DIFFICULTIES (difficulty s))) nxt"
    and "cellwise (\<lambda>x y. isRevealed y = isRevealed x \<and> isFlagged y = isFlagged x) (board s) nxt"
    and "minesPlanted s \<Longrightarrow> nxt = board s"
proof -
  show "minesPlanted s \<Longrightarrow> nxt = board s" using assms(1) by (simp add: plantedBoard_def)
  show "rect (rows (DIFFICULTIES (difficulty s))) (cols (DIFFICULTIES (difficulty s))) nxt"
    using assms plantMines_cellwise(1)[OF _ assms(2)]
    by (cases "minesPlanted s") (auto simp: plantedBoard_def)
  show "cellwise (\<lambda>x y. isRevealed y = isRevealed x \<and> isFlagged y = isFlagged x) (board s) nxt"
  proof (cases "minesPlanted s")
    case True
    with assms(1) have "nxt = board s" by (simp add: plantedBoard_def)
    then show ?thesis by (simp add: cellwise_refl)
  next
    case False
    with assms(1) plantMines_cellwise(2)[OF _ assms(2)] show ?thesis
      by (simp add: plantedBoard_def)
  qed
qed

text \<open>A reveal step, by cascade or of the single cell: only unrevealed, unflagged non-mine
  cells become revealed, and nothing else changes.\<close>

definition opens :: "cell \<Rightarrow> cell \<Rightarrow> bool" where
  "opens x y \<longleftrightarrow>
     isMine y = isMine x \<and> isFlagged y = isFlagged x \<and> count y = count x \<and>
     (isRevealed x \<longrightarrow> isRevealed y) \<and>
     (isRevealed y \<and> \<not> isRevealed x \<longrightarrow> \<not> isMine x \<and> \<not> isFlagged x)"

lemma opened_cellwise:
  assumes "opened b r c cl = Inr b'" "rect m n b" "cellAt b r c = Some cl"
    "\<not> isRevealed cl" "\<not> isFlagged cl" "\<not> isMine cl"
  shows "rect m n b'" and "cellwise opens b b'"
    and "\<exists>y. cellAt b' r c = Some y \<and> isRevealed y"
proof -
  show "rect m n b'" "cellwise opens b b'" "\<exists>y. cellAt b' r c = Some y \<and> isRevealed y"
  proof (atomize (full), cases "count cl = 0")
    case False
    with assms(1) have b': "b' = setCell b r c (cl\<lparr>isRevealed := True\<rparr>)"
      by (simp add: opened_def)
    have "cellwise opens b b'"
      unfolding b'
      by (rule cellwise_mono[OF cellwise_setCell[OF assms(3)]])
         (use assms(4,5,6) in \<open>auto simp: opens_def\<close>)
    moreover have "rect m n b'" unfolding b' by (rule rect_setCell[OF assms(2)])
    moreover have "cellAt b' r c = Some (cl\<lparr>isRevealed := True\<rparr>)"
      unfolding b' by (simp add: cellAt_setCell'[OF assms(3)])
    ultimately show "rect m n b' \<and> cellwise opens b b' \<and> (\<exists>y. cellAt b' r c = Some y \<and> isRevealed y)"
      by simp
  next
    case True
    with assms(1) have fr: "floodReveal b r c = Inr b'" by (simp add: opened_def)
    from floodReveal_spec[OF assms(2,3) True assms(4)] fr have
      r': "rect m n b'" and
      pw: "\<And>r' c'. cellAt b' r' c' =
              map_option (\<lambda>x. if (r', c') \<in> cascade b (r, c) then x\<lparr>isRevealed := True\<rparr> else x)
                (cellAt b r' c')" by auto
    have "cellwise opens b b'"
      unfolding cellwise_def
    proof (intro allI)
      fix r' c'
      show "rel_option opens (cellAt b r' c') (cellAt b' r' c')"
      proof (cases "cellAt b r' c'")
        case None
        then show ?thesis by (simp add: pw)
      next
        case (Some x)
        show ?thesis
        proof (cases "(r', c') \<in> cascade b (r, c)")
          case False
          with Some show ?thesis by (simp add: pw opens_def)
        next
          case True
          from cascade_eligible[OF True] have "\<not> isRevealed x \<longrightarrow> \<not> isMine x \<and> \<not> isFlagged x"
            using Some assms(3,5,6) by (auto simp: eligible_def)
          with True Some show ?thesis by (simp add: pw opens_def)
        qed
      qed
    qed
    moreover have "cellAt b' r c = Some (cl\<lparr>isRevealed := True\<rparr>)"
      by (simp add: pw assms(3) cascade.start)
    ultimately show "rect m n b' \<and> cellwise opens b b' \<and> (\<exists>y. cellAt b' r c = Some y \<and> isRevealed y)"
      using r' by simp
  qed
qed

lemma tally_map:
  "length (filter P (concat (map (map f) b))) = length (filter (\<lambda>x. P (f x)) (concat b))"
  by (simp add: concat_map_map filter_map comp_def)

lemma tally_map_cong:
  assumes "\<And>x. P (f x) = Q x"
  shows "length (filter P (concat (map (map f) b))) = length (filter Q (concat b))"
proof -
  have "filter (\<lambda>x. P (f x)) (concat b) = filter Q (concat b)"
    by (rule filter_cong) (simp_all add: assms)
  then show ?thesis unfolding tally_map by (rule arg_cong)
qed

lemma countRevealedSafe_revealMines: "countRevealedSafe (revealMines b) = countRevealedSafe b"
  unfolding countRevealedSafe_def revealMines_def by (rule tally_map_cong) simp

lemma countFlagged_revealMines: "countFlagged (revealMines b) = countFlagged b"
  unfolding countFlagged_def revealMines_def by (rule tally_map_cong) simp

lemma countRevealedSafe_flagMines: "countRevealedSafe (flagMines b) = countRevealedSafe b"
  unfolding countRevealedSafe_def flagMines_def by (rule tally_map_cong) simp

lemma countFlagged_flagMines:
  "countFlagged (flagMines b) = length (filter (\<lambda>x. isMine x \<or> isFlagged x) (concat b))"
  unfolding countFlagged_def flagMines_def by (rule tally_map_cong) simp

text \<open>When all safe cells are revealed and no safe cell is both revealed and flagged, the
  mines and the flags together are at most as many as the mines of the difficulty.\<close>

lemma flags_at_win:
  assumes "rect m n b" "int (countRevealedSafe b) = int (m * n) - int k"
    and "\<forall>x \<in> set (concat b). isRevealed x \<and> isFlagged x \<longrightarrow> isMine x"
  shows "length (filter (\<lambda>x. isMine x \<or> isFlagged x) (concat b)) \<le> k"
proof -
  let ?xs = "concat b"
  define a where "a = length (filter (\<lambda>x. isMine x \<or> isFlagged x) ?xs)"
  define u where "u = length (filter (\<lambda>x. \<not> (isRevealed x \<and> \<not> isMine x)) ?xs)"
  have "filter (\<lambda>x. isMine x \<or> isFlagged x) ?xs
          = filter (\<lambda>x. isMine x \<or> isFlagged x)
              (filter (\<lambda>x. \<not> (isRevealed x \<and> \<not> isMine x)) ?xs)"
    unfolding filter_filter by (rule filter_cong) (use assms(3) in auto)
  then have "a \<le> u" unfolding a_def u_def by (metis length_filter_le)
  moreover have "countRevealedSafe b + u = length ?xs"
    unfolding countRevealedSafe_def u_def by (rule sum_length_filter_compl)
  moreover have "length ?xs = m * n" by (rule rect_concat_length[OF assms(1)])
  ultimately have "a \<le> k" using assms(2) by linarith
  then show ?thesis by (simp add: a_def)
qed

section \<open>An invariant of the sessions\<close>

text \<open>The cells of a board, in no order: what \<open>board.flat()\<close> ranges over.\<close>

definition cells :: "cell list list \<Rightarrow> cell set" where
  "cells b = set (concat b)"

lemma cells_map: "cells (map (map f) b) = f ` cells b"
  by (simp add: cells_def concat_map_map)

lemma cells_revealMinesE:
  assumes "x \<in> cells (revealMines b)"
  obtains x0 where "x0 \<in> cells b" "x = (if isMine x0 then x0\<lparr>isRevealed := True\<rparr> else x0)"
  using assms unfolding revealMines_def cells_map by blast

lemma cells_flagMinesE:
  assumes "x \<in> cells (flagMines b)"
  obtains x0 where "x0 \<in> cells b" "x = (if isMine x0 then x0\<lparr>isFlagged := True\<rparr> else x0)"
  using assms unfolding flagMines_def cells_map by blast

lemma cellwise_cells:
  assumes "cellwise R b b'" "y \<in> cells b'"
  shows "\<exists>x \<in> cells b. R x y"
  using cellwise_elem[OF assms(1)] assms(2) unfolding cells_def by blast

lemma cells_makeEmptyBoard: "x \<in> cells (makeEmptyBoard m n) \<Longrightarrow> x = emptyCell"
  using concat_makeEmptyBoard[of m n] unfolding cells_def by blast

lemma tally_none: "\<forall>x \<in> cells b. \<not> P x \<Longrightarrow> length (filter P (concat b)) = 0"
  by (simp add: cells_def filter_empty_conv)

definition sessionInv :: "session \<Rightarrow> bool" where
  "sessionInv s \<longleftrightarrow>
     rect (rows (DIFFICULTIES (difficulty s))) (cols (DIFFICULTIES (difficulty s))) (board s) \<and>
     (minesPlanted s \<longleftrightarrow> status s \<noteq> Ready) \<and>
     (\<not> minesPlanted s \<longrightarrow> (\<forall>x \<in> cells (board s). \<not> isRevealed x \<and> \<not> isMine x)) \<and>
     (\<forall>x \<in> cells (board s). isRevealed x \<and> isMine x \<longrightarrow> status s = Lost) \<and>
     (\<forall>x \<in> cells (board s). isRevealed x \<and> isFlagged x \<longrightarrow> isMine x) \<and>
     countFlagged (board s) \<le> mines (DIFFICULTIES (difficulty s)) \<and>
     (status s = Won \<longleftrightarrow> int (countRevealedSafe (board s)) = totalSafe s) \<and>
     (status s = Won \<longrightarrow> (\<forall>x \<in> cells (board s). isMine x \<longrightarrow> isFlagged x))"

lemma sessionInvI:
  assumes "rect (rows (DIFFICULTIES (difficulty s))) (cols (DIFFICULTIES (difficulty s))) (board s)"
    and "minesPlanted s \<longleftrightarrow> status s \<noteq> Ready"
    and "\<And>x. \<not> minesPlanted s \<Longrightarrow> x \<in> cells (board s) \<Longrightarrow> \<not> isRevealed x \<and> \<not> isMine x"
    and "\<And>x. x \<in> cells (board s) \<Longrightarrow> isRevealed x \<Longrightarrow> isMine x \<Longrightarrow> status s = Lost"
    and "\<And>x. x \<in> cells (board s) \<Longrightarrow> isRevealed x \<Longrightarrow> isFlagged x \<Longrightarrow> isMine x"
    and "countFlagged (board s) \<le> mines (DIFFICULTIES (difficulty s))"
    and "status s = Won \<longleftrightarrow> int (countRevealedSafe (board s)) = totalSafe s"
    and "\<And>x. status s = Won \<Longrightarrow> x \<in> cells (board s) \<Longrightarrow> isMine x \<Longrightarrow> isFlagged x"
  shows "sessionInv s"
  unfolding sessionInv_def using assms by blast

lemma sessionInvD:
  assumes "sessionInv s"
  shows "rect (rows (DIFFICULTIES (difficulty s))) (cols (DIFFICULTIES (difficulty s))) (board s)"
    and "minesPlanted s \<longleftrightarrow> status s \<noteq> Ready"
    and "\<not> minesPlanted s \<Longrightarrow> x \<in> cells (board s) \<Longrightarrow> \<not> isRevealed x \<and> \<not> isMine x"
    and "x \<in> cells (board s) \<Longrightarrow> isRevealed x \<Longrightarrow> isMine x \<Longrightarrow> status s = Lost"
    and "x \<in> cells (board s) \<Longrightarrow> isRevealed x \<Longrightarrow> isFlagged x \<Longrightarrow> isMine x"
    and "countFlagged (board s) \<le> mines (DIFFICULTIES (difficulty s))"
    and "status s = Won \<longleftrightarrow> int (countRevealedSafe (board s)) = totalSafe s"
    and "status s = Won \<Longrightarrow> x \<in> cells (board s) \<Longrightarrow> isMine x \<Longrightarrow> isFlagged x"
  using assms unfolding sessionInv_def by blast+

lemma totalSafe_pos: "0 < totalSafe s"
  by (cases "difficulty s") (simp_all add: totalSafe_def)

text \<open>The board \<open>next\<close> of \<open>handleReveal\<close> at the point where the clicked cell is read.\<close>

lemma next_facts:
  assumes inv: "sessionInv s" and st: "status s \<noteq> Lost" "status s \<noteq> Won"
    and p: "plantedBoard s r c smp = Inr nxt"
  shows "rect (rows (DIFFICULTIES (difficulty s))) (cols (DIFFICULTIES (difficulty s))) nxt"
    and "\<And>y. y \<in> cells nxt \<Longrightarrow> isRevealed y \<Longrightarrow> isFlagged y \<Longrightarrow> isMine y"
    and "\<And>y. y \<in> cells nxt \<Longrightarrow> isRevealed y \<Longrightarrow> \<not> isMine y"
    and "countFlagged nxt = countFlagged (board s)"
    and "int (countRevealedSafe nxt) \<noteq> totalSafe s"
proof -
  note r = sessionInvD(1)[OF inv]
  note pb = plantedBoard_cellwise[OF p r]
  show rn: "rect (rows (DIFFICULTIES (difficulty s))) (cols (DIFFICULTIES (difficulty s))) nxt"
    by (rule pb(1))
  show "countFlagged nxt = countFlagged (board s)"
    unfolding countFlagged_def
    by (rule cellwise_tally[OF r rn]) (rule cellwise_mono[OF pb(2)], simp)
  have none: "\<not> isRevealed y" if "\<not> minesPlanted s" "y \<in> cells nxt" for y
  proof -
    from cellwise_cells[OF pb(2) that(2)] obtain x where
      "x \<in> cells (board s)" "isRevealed y = isRevealed x" by blast
    with sessionInvD(3)[OF inv that(1)] show "\<not> isRevealed y" by blast
  qed
  show "isMine y" if "y \<in> cells nxt" "isRevealed y" "isFlagged y" for y
  proof (cases "minesPlanted s")
    case True
    with pb(3) that sessionInvD(5)[OF inv] show ?thesis by blast
  next
    case False
    with none that show ?thesis by blast
  qed
  show "\<not> isMine y" if "y \<in> cells nxt" "isRevealed y" for y
  proof (cases "minesPlanted s")
    case True
    with pb(3) that sessionInvD(4)[OF inv] st show ?thesis by blast
  next
    case False
    with none that show ?thesis by blast
  qed
  show "int (countRevealedSafe nxt) \<noteq> totalSafe s"
  proof (cases "minesPlanted s")
    case True
    with pb(3) sessionInvD(7)[OF inv] st show ?thesis by blast
  next
    case False
    with none have "\<forall>y \<in> cells nxt. \<not> (isRevealed y \<and> \<not> isMine y)" by blast
    from tally_none[OF this] totalSafe_pos[of s] show ?thesis
      by (simp add: countRevealedSafe_def)
  qed
qed

lemma sessionInv_started:
  assumes inv: "sessionInv s" and st: "status s \<noteq> Lost" "status s \<noteq> Won"
  shows "sessionInv (started s)"
proof (cases "minesPlanted s")
  case True
  then have "started s = s" by (simp add: started_def)
  with inv show ?thesis by simp
next
  case False
  let ?s = "started s"
  have none: "\<not> isRevealed x" if "x \<in> cells (board s)" for x
    using sessionInvD(3)[OF inv False that] by simp
  then have "\<forall>y \<in> cells (board s). \<not> (isRevealed y \<and> \<not> isMine y)" by blast
  from tally_none[OF this] totalSafe_pos[of s]
  have ns: "int (countRevealedSafe (board s)) \<noteq> totalSafe s"
    by (simp add: countRevealedSafe_def)
  have stt: "status ?s = Playing" using False by (simp add: started_status)
  show ?thesis
  proof (rule sessionInvI)
    show "rect (rows (DIFFICULTIES (difficulty ?s))) (cols (DIFFICULTIES (difficulty ?s))) (board ?s)"
      using sessionInvD(1)[OF inv] by simp
    show "minesPlanted ?s \<longleftrightarrow> status ?s \<noteq> Ready" by (simp add: stt)
    show "\<not> isRevealed x \<and> \<not> isMine x" if "\<not> minesPlanted ?s" for x using that by simp
    show "status ?s = Lost" if "x \<in> cells (board ?s)" "isRevealed x" for x
      using that none[of x] by simp
    show "isMine x" if "x \<in> cells (board ?s)" "isRevealed x" for x
      using that none[of x] by simp
    show "countFlagged (board ?s) \<le> mines (DIFFICULTIES (difficulty ?s))"
      using sessionInvD(6)[OF inv] by simp
    show "status ?s = Won \<longleftrightarrow> int (countRevealedSafe (board ?s)) = totalSafe ?s"
      using ns by (simp add: stt totalSafe_def)
    show "isFlagged x" if "status ?s = Won" for x using that by (simp add: stt)
  qed
qed

lemma sessionInv_lost:
  assumes inv: "sessionInv s" and st: "status s \<noteq> Lost" "status s \<noteq> Won"
    and p: "plantedBoard s r c smp = Inr nxt"
  shows "sessionInv ((started s)\<lparr>board := revealMines nxt, status := Lost\<rparr>)"
proof -
  let ?s = "(started s)\<lparr>board := revealMines nxt, status := Lost\<rparr>"
  note n = next_facts[OF inv st p]
  have c: "cells (revealMines nxt)
             = (\<lambda>cel. if isMine cel then cel\<lparr>isRevealed := True\<rparr> else cel) ` cells nxt"
    unfolding revealMines_def by (rule cells_map)
  show ?thesis
  proof (rule sessionInvI)
    show "rect (rows (DIFFICULTIES (difficulty ?s))) (cols (DIFFICULTIES (difficulty ?s))) (board ?s)"
      using rect_map[OF n(1)] by (simp add: revealMines_def)
    show "minesPlanted ?s \<longleftrightarrow> status ?s \<noteq> Ready" by simp
    show "\<not> isRevealed x \<and> \<not> isMine x" if "\<not> minesPlanted ?s" for x using that by simp
    show "status ?s = Lost" for x by simp
    show "isMine x" if "x \<in> cells (board ?s)" "isRevealed x" "isFlagged x" for x
    proof -
      from that(1) have "x \<in> cells (revealMines nxt)" by simp
      then obtain x0 where x0: "x0 \<in> cells nxt"
        "x = (if isMine x0 then x0\<lparr>isRevealed := True\<rparr> else x0)" by (rule cells_revealMinesE)
      show ?thesis
      proof (cases "isMine x0")
        case True
        with x0(2) show ?thesis by simp
      next
        case False
        with x0(2) that(2,3) n(2)[OF x0(1)] show ?thesis by simp
      qed
    qed
    show "countFlagged (board ?s) \<le> mines (DIFFICULTIES (difficulty ?s))"
      using n(4) sessionInvD(6)[OF inv] by (simp add: countFlagged_revealMines)
    show "status ?s = Won \<longleftrightarrow> int (countRevealedSafe (board ?s)) = totalSafe ?s"
      using n(5) by (simp add: countRevealedSafe_revealMines totalSafe_def)
    show "isFlagged x" if "status ?s = Won" for x using that by simp
  qed
qed

lemma sessionInv_opened:
  assumes inv: "sessionInv s" and st: "status s \<noteq> Lost" "status s \<noteq> Won"
    and p: "plantedBoard s r c smp = Inr nxt"
    and at: "cellAt nxt r c = Some cl" "\<not> isRevealed cl" "\<not> isFlagged cl" "\<not> isMine cl"
    and o: "opened nxt r c cl = Inr nxt'"
  shows "sessionInv (concluded (started s) (totalSafe s) nxt')"
proof -
  let ?m = "rows (DIFFICULTIES (difficulty s))" and ?n = "cols (DIFFICULTIES (difficulty s))"
  note n = next_facts[OF inv st p]
  note oc = opened_cellwise[OF o n(1) at]
  have o2: "isMine y" if y: "y \<in> cells nxt'" "isRevealed y" "isFlagged y" for y
  proof -
    from cellwise_cells[OF oc(2) y(1)] obtain x where x: "x \<in> cells nxt" "opens x y" by blast
    with y(2,3) n(2)[of x] show "isMine y" by (auto simp: opens_def)
  qed
  have o3: "\<not> isMine y" if y: "y \<in> cells nxt'" "isRevealed y" for y
  proof -
    from cellwise_cells[OF oc(2) y(1)] obtain x where x: "x \<in> cells nxt" "opens x y" by blast
    with y(2) n(3)[of x] show "\<not> isMine y" by (auto simp: opens_def)
  qed
  have o4: "countFlagged nxt' = countFlagged nxt"
    unfolding countFlagged_def
    by (rule cellwise_tally[OF n(1) oc(1)]) (rule cellwise_mono[OF oc(2)], simp add: opens_def)
  have stt: "status (started s) \<noteq> Won" "status (started s) \<noteq> Ready"
    "status (started s) \<noteq> Lost"
    using st sessionInvD(2)[OF inv] by (auto simp: started_status)
  show ?thesis
  proof (cases "int (countRevealedSafe nxt') = totalSafe s")
    case False
    let ?s = "(started s)\<lparr>revealedCount := countRevealedSafe nxt', board := nxt'\<rparr>"
    have "sessionInv ?s"
    proof (rule sessionInvI)
      show "rect (rows (DIFFICULTIES (difficulty ?s))) (cols (DIFFICULTIES (difficulty ?s))) (board ?s)"
        using oc(1) by simp
      show "minesPlanted ?s \<longleftrightarrow> status ?s \<noteq> Ready" using stt by simp
      show "\<not> isRevealed x \<and> \<not> isMine x" if "\<not> minesPlanted ?s" for x using that by simp
      show "status ?s = Lost" if "x \<in> cells (board ?s)" "isRevealed x" "isMine x" for x
        using that o3[of x] by simp
      show "isMine x" if "x \<in> cells (board ?s)" "isRevealed x" "isFlagged x" for x
        using that o2[of x] by simp
      show "countFlagged (board ?s) \<le> mines (DIFFICULTIES (difficulty ?s))"
        using o4 n(4) sessionInvD(6)[OF inv] by simp
      show "status ?s = Won \<longleftrightarrow> int (countRevealedSafe (board ?s)) = totalSafe ?s"
        using False stt by (simp add: totalSafe_def)
      show "isFlagged x" if "status ?s = Won" for x using that stt by simp
    qed
    with False show ?thesis by (simp add: concluded_def)
  next
    case True
    let ?s = "(started s)\<lparr>revealedCount := countRevealedSafe nxt', board := flagMines nxt',
                 status := Won\<rparr>"
    from True have win: "int (countRevealedSafe nxt')
                          = int (?m * ?n) - int (mines (DIFFICULTIES (difficulty s)))"
      by (simp add: totalSafe_def)
    have c: "cells (flagMines nxt')
             = (\<lambda>cel. if isMine cel then cel\<lparr>isFlagged := True\<rparr> else cel) ` cells nxt'"
      unfolding flagMines_def by (rule cells_map)
    have o2': "\<forall>x \<in> set (concat nxt'). isRevealed x \<and> isFlagged x \<longrightarrow> isMine x"
      using o2 by (auto simp: cells_def)
    have "sessionInv ?s"
    proof (rule sessionInvI)
      show "rect (rows (DIFFICULTIES (difficulty ?s))) (cols (DIFFICULTIES (difficulty ?s))) (board ?s)"
        using rect_map[OF oc(1)] by (simp add: flagMines_def)
      show "minesPlanted ?s \<longleftrightarrow> status ?s \<noteq> Ready" by simp
      show "\<not> isRevealed x \<and> \<not> isMine x" if "\<not> minesPlanted ?s" for x using that by simp
      show "status ?s = Lost" if "x \<in> cells (board ?s)" "isRevealed x" "isMine x" for x
      proof -
        from that(1) have "x \<in> cells (flagMines nxt')" by simp
        then obtain x0 where x0: "x0 \<in> cells nxt'"
          "x = (if isMine x0 then x0\<lparr>isFlagged := True\<rparr> else x0)" by (rule cells_flagMinesE)
        from x0(2) that(2,3) have "isRevealed x0" "isMine x0" by (auto split: if_splits)
        with o3[OF x0(1)] show ?thesis by simp
      qed
      show "isMine x" if "x \<in> cells (board ?s)" "isRevealed x" "isFlagged x" for x
      proof -
        from that(1) have "x \<in> cells (flagMines nxt')" by simp
        then obtain x0 where x0: "x0 \<in> cells nxt'"
          "x = (if isMine x0 then x0\<lparr>isFlagged := True\<rparr> else x0)" by (rule cells_flagMinesE)
        show ?thesis
        proof (cases "isMine x0")
          case True
          with x0(2) show ?thesis by simp
        next
          case False
          with x0(2) that(2,3) o2[OF x0(1)] show ?thesis by simp
        qed
      qed
      show "countFlagged (board ?s) \<le> mines (DIFFICULTIES (difficulty ?s))"
        using flags_at_win[OF oc(1) win o2'] by (simp add: countFlagged_flagMines)
      show "status ?s = Won \<longleftrightarrow> int (countRevealedSafe (board ?s)) = totalSafe ?s"
        using True by (simp add: countRevealedSafe_flagMines totalSafe_def)
      show "isFlagged x" if "status ?s = Won" "x \<in> cells (board ?s)" "isMine x" for x
      proof -
        from that(2) have "x \<in> cells (flagMines nxt')" by simp
        then obtain x0 where x0: "x0 \<in> cells nxt'"
          "x = (if isMine x0 then x0\<lparr>isFlagged := True\<rparr> else x0)" by (rule cells_flagMinesE)
        from x0(2) that(3) show ?thesis by (auto split: if_splits)
      qed
    qed
    with True show ?thesis by (simp add: concluded_def)
  qed
qed

lemma sessionInv_handleReveal:
  assumes "sessionInv s" "handleReveal s r c smp = Inr s'"
  shows "sessionInv s'"
  using assms(2)
proof (cases rule: handleReveal_cases)
  case terminal
  with assms(1) show ?thesis by simp
next
  case (rejected nxt cl)
  with sessionInv_started[OF assms(1)] show ?thesis by simp
next
  case (lost nxt cl)
  with sessionInv_lost[OF assms(1)] show ?thesis by simp
next
  case (opened nxt cl nxt')
  with sessionInv_opened[OF assms(1)] show ?thesis by simp
qed

lemma sessionInv_handleFlag:
  assumes inv: "sessionInv s" and run: "handleFlag s r c = Inr s'"
  shows "sessionInv s'"
  using run
proof (cases rule: handleFlag_cases)
  case terminal
  with inv show ?thesis by simp
next
  case (revealed cl)
  with inv show ?thesis by simp
next
  case (exhausted cl)
  with inv show ?thesis by simp
next
  case (toggled cl)
  let ?cl = "cl\<lparr>isFlagged := \<not> isFlagged cl\<rparr>"
  let ?b = "setCell (board s) r c ?cl"
  let ?s = "s\<lparr>board := ?b\<rparr>"
  note at = toggled(3)
  have cw: "cellwise (\<lambda>x y. y = x \<or> (x = cl \<and> y = ?cl)) (board s) ?b"
    by (rule cellwise_setCell[OF at])
  have el: "\<exists>x \<in> cells (board s). isRevealed y = isRevealed x \<and> isMine y = isMine x \<and>
              (isFlagged y \<noteq> isFlagged x \<longrightarrow> \<not> isRevealed y)"
    if "y \<in> cells ?b" for y
  proof -
    from cellwise_cells[OF cw that] obtain x where
      x: "x \<in> cells (board s)" "y = x \<or> (x = cl \<and> y = ?cl)" by blast
    from x(2) toggled(4) have "isRevealed y = isRevealed x \<and> isMine y = isMine x \<and>
              (isFlagged y \<noteq> isFlagged x \<longrightarrow> \<not> isRevealed y)" by auto
    with x(1) show ?thesis by blast
  qed
  have "sessionInv ?s"
  proof (rule sessionInvI)
    show "rect (rows (DIFFICULTIES (difficulty ?s))) (cols (DIFFICULTIES (difficulty ?s))) (board ?s)"
      using rect_setCell[OF sessionInvD(1)[OF inv]] by simp
    show "minesPlanted ?s \<longleftrightarrow> status ?s \<noteq> Ready" using sessionInvD(2)[OF inv] by simp
    show "\<not> isRevealed x \<and> \<not> isMine x" if "\<not> minesPlanted ?s" "x \<in> cells (board ?s)" for x
    proof -
      from that el[of x] obtain x0 where "x0 \<in> cells (board s)"
        "isRevealed x = isRevealed x0" "isMine x = isMine x0" by auto
      with sessionInvD(3)[OF inv, of x0] that(1) show ?thesis by simp
    qed
    show "status ?s = Lost" if "x \<in> cells (board ?s)" "isRevealed x" "isMine x" for x
    proof -
      from that el[of x] obtain x0 where "x0 \<in> cells (board s)"
        "isRevealed x = isRevealed x0" "isMine x = isMine x0" by auto
      with sessionInvD(4)[OF inv, of x0] that show ?thesis by simp
    qed
    show "isMine x" if "x \<in> cells (board ?s)" "isRevealed x" "isFlagged x" for x
    proof -
      from that el[of x] obtain x0 where "x0 \<in> cells (board s)"
        "isRevealed x = isRevealed x0" "isMine x = isMine x0" "isFlagged x = isFlagged x0" by auto
      with sessionInvD(5)[OF inv, of x0] that show ?thesis by simp
    qed
    show "countFlagged (board ?s) \<le> mines (DIFFICULTIES (difficulty ?s))"
      using tally_setCell[OF at, of isFlagged ?cl] toggled(5) sessionInvD(6)[OF inv]
      by (auto simp: countFlagged_def split: if_splits)
    have "countRevealedSafe ?b = countRevealedSafe (board s)"
      using tally_setCell[OF at, of "\<lambda>cel. isRevealed cel \<and> \<not> isMine cel" ?cl]
      by (auto simp: countRevealedSafe_def split: if_splits)
    then show "status ?s = Won \<longleftrightarrow> int (countRevealedSafe (board ?s)) = totalSafe ?s"
      using sessionInvD(7)[OF inv] by (simp add: totalSafe_def)
    show "isFlagged x" if "status ?s = Won" for x using that toggled(2) by simp
  qed
  with toggled(6) show ?thesis by simp
qed

lemma sessionInv_newSession: "sessionInv (newSession d)"
proof -
  let ?s = "newSession d"
  have b: "board ?s = makeEmptyBoard (rows (DIFFICULTIES d)) (cols (DIFFICULTIES d))"
    and d: "difficulty ?s = d" and st: "status ?s = Ready" and mp: "\<not> minesPlanted ?s"
    by (simp_all add: newSession_def)
  have e: "\<not> isRevealed x \<and> \<not> isMine x \<and> \<not> isFlagged x" if "x \<in> cells (board ?s)" for x
    using cells_makeEmptyBoard[of x "rows (DIFFICULTIES d)" "cols (DIFFICULTIES d)"] that
    unfolding b by (simp add: emptyCell_def)
  have "\<forall>x \<in> cells (board ?s). \<not> (isRevealed x \<and> \<not> isMine x)" using e by blast
  then have z1: "countRevealedSafe (board ?s) = 0"
    unfolding countRevealedSafe_def by (rule tally_none)
  have "\<forall>x \<in> cells (board ?s). \<not> isFlagged x" using e by blast
  then have z2: "countFlagged (board ?s) = 0"
    unfolding countFlagged_def by (rule tally_none)
  show ?thesis
  proof (rule sessionInvI)
    show "rect (rows (DIFFICULTIES (difficulty ?s))) (cols (DIFFICULTIES (difficulty ?s))) (board ?s)"
      unfolding b d by (rule rect_makeEmptyBoard)
    show "minesPlanted ?s \<longleftrightarrow> status ?s \<noteq> Ready" using st mp by simp
    show "\<not> isRevealed x \<and> \<not> isMine x" if "x \<in> cells (board ?s)" for x
      using e[OF that] by simp
    show "status ?s = Lost" if "x \<in> cells (board ?s)" "isRevealed x" for x
      using e[OF that(1)] that(2) by simp
    show "isMine x" if "x \<in> cells (board ?s)" "isRevealed x" for x
      using e[OF that(1)] that(2) by simp
    show "countFlagged (board ?s) \<le> mines (DIFFICULTIES (difficulty ?s))" by (simp add: z2)
    show "status ?s = Won \<longleftrightarrow> int (countRevealedSafe (board ?s)) = totalSafe ?s"
      using totalSafe_pos[of ?s] by (simp add: z1 st)
    show "isFlagged x" if "status ?s = Won" for x using that st by simp
  qed
qed

lemma sessionInv_seconds: "sessionInv (s\<lparr>seconds := k\<rparr>) = sessionInv s"
  by (simp add: sessionInv_def totalSafe_def)

lemma sessionInv_tick: "sessionInv s \<Longrightarrow> sessionInv (tick s)"
  by (cases "status s = Playing") (simp_all add: tick_def sessionInv_seconds)

lemma reachable_sessionInv: "reachable s \<Longrightarrow> sessionInv s"
proof (induction rule: reachable.induct)
  case mount
  show ?case by (rule sessionInv_newSession)
next
  case (reveal s r c samples s')
  from sessionInv_handleReveal[OF reveal.IH reveal.hyps(2)] show ?case .
next
  case (flag s r c s')
  from sessionInv_handleFlag[OF flag.IH flag.hyps(2)] show ?case .
next
  case (reset s)
  show ?case unfolding reset_def by (rule sessionInv_newSession)
next
  case (setDifficulty s d)
  show ?case by (rule sessionInv_newSession)
next
  case (tick s)
  from sessionInv_tick[OF tick.IH] show ?case .
qed

section \<open>Runs of the handlers\<close>

text \<open>The state after an intent, the old state being kept when the handler throws.\<close>

definition afterReveal :: "session \<Rightarrow> int \<Rightarrow> int \<Rightarrow> (nat \<times> nat) list \<Rightarrow> session" where
  "afterReveal s r c smp = (case handleReveal s r c smp of Inr s' \<Rightarrow> s' | Inl e \<Rightarrow> s)"

definition afterFlag :: "session \<Rightarrow> int \<Rightarrow> int \<Rightarrow> session" where
  "afterFlag s r c = (case handleFlag s r c of Inr s' \<Rightarrow> s' | Inl e \<Rightarrow> s)"

lemma reachable_afterReveal: "reachable s \<Longrightarrow> reachable (afterReveal s r c smp)"
  by (cases "handleReveal s r c smp") (auto simp: afterReveal_def intro: reachable.reveal)

lemma reachable_afterFlag: "reachable s \<Longrightarrow> reachable (afterFlag s r c)"
  by (cases "handleFlag s r c") (auto simp: afterFlag_def intro: reachable.flag)

lemma handleReveal_afterReveal:
  "\<not> isl (handleReveal s r c smp) \<Longrightarrow> handleReveal s r c smp = Inr (afterReveal s r c smp)"
  by (cases "handleReveal s r c smp") (auto simp: afterReveal_def)

lemma handleFlag_afterFlag:
  "\<not> isl (handleFlag s r c) \<Longrightarrow> handleFlag s r c = Inr (afterFlag s r c)"
  by (cases "handleFlag s r c") (auto simp: afterFlag_def)

text \<open>A Beginner game: first click at \<open>(4, 4)\<close>; then a flag on the mine at \<open>(0, 0)\<close> and a
  click on the mine at \<open>(0, 8)\<close>.\<close>

definition beginnerPlaying :: session where
  "beginnerPlaying = afterReveal (newSession Beginner) 4 4 beginnerDraws"

definition beginnerLost :: session where
  "beginnerLost = afterReveal (afterFlag beginnerPlaying 0 0) 0 8 []"

text \<open>A Beginner game that starts with a flag on \<open>(0, 0)\<close>, and one that starts with ten
  flags, on \<open>(1, 0)\<close> and on the first row.\<close>

definition flaggedFresh :: session where
  "flaggedFresh = afterFlag (newSession Beginner) 0 0"

definition tenFlags :: session where
  "tenFlags =
     fold (\<lambda>c s. afterFlag s 0 c) [0, 1, 2, 3, 4, 5, 6, 7, 8] (afterFlag (newSession Beginner) 1 0)"

text \<open>From the ten flags: a click on the flagged cell \<open>(0, 0)\<close>, then a click on \<open>(8, 8)\<close>.\<close>

definition wonEarly :: session where
  "wonEarly = afterReveal (afterReveal tenFlags 0 0 beginnerDraws) 8 8 []"

lemma reachable_beginnerPlaying: "reachable beginnerPlaying"
  unfolding beginnerPlaying_def by (intro reachable_afterReveal reachable.mount)

lemma reachable_beginnerLost: "reachable beginnerLost"
  unfolding beginnerLost_def
  by (intro reachable_afterReveal reachable_afterFlag reachable_beginnerPlaying)

lemma reachable_flaggedFresh: "reachable flaggedFresh"
  unfolding flaggedFresh_def by (intro reachable_afterFlag reachable.mount)

lemma reachable_fold_afterFlag:
  "reachable s \<Longrightarrow> reachable (fold (\<lambda>c s. afterFlag s r c) cs s)"
  by (induction cs arbitrary: s) (auto intro: reachable_afterFlag)

lemma reachable_tenFlags: "reachable tenFlags"
  unfolding tenFlags_def
  by (intro reachable_fold_afterFlag reachable_afterFlag reachable.mount)

lemma reachable_wonEarly: "reachable wonEarly"
  unfolding wonEarly_def by (intro reachable_afterReveal reachable_tenFlags)

lemma in_cells_cellAt: "cellAt b r c = Some x \<Longrightarrow> x \<in> cells b"
  unfolding cells_def using in_concat_cellAt[of x b] by blast

section \<open>Claim about the generator\<close>

text \<open>Each difficulty leaves room for its mines outside any forbidden set.\<close>

lemma difficulty_room:
  "mines (DIFFICULTIES d) + 9 \<le> rows (DIFFICULTIES d) * cols (DIFFICULTIES d)"
  by (cases d) simp_all


text \<open>
  Claim C1. The draws are the values of \<open>Math.floor(Math.random() * rows)\<close> and
  \<open>Math.floor(Math.random() * cols)\<close>, so each is within the grid.

  \<^item> On the all-empty board of \<open>m\<close> rows and \<open>n\<close> columns, with mine budget \<open>k\<close> and
    first click \<open>(sr, sc)\<close>, \<open>plantMines\<close> returns a board exactly when the draws name
    at least \<open>k\<close> different cells outside the forbidden set; on fewer it is still in its
    loop when the draws end, and it never throws.
  \<^item> For each of the three difficulties and every first click, any draws followed by one
    draw of every cell are enough: no run of the loop reaches a point from which it cannot
    end.
  \<^item> Whenever \<open>plantMines\<close> returns: the clicked cell and each of its in-bounds eight
    neighbours is not a mine; exactly \<open>k\<close> cells are mines; and every cell's \<open>count\<close>
    is the number of its in-bounds mine-bearing neighbours if it is not a mine, and still
    0 if it is one.
\<close>

theorem plantMines_postcondition:
  "(drawsWithin m n smp \<longrightarrow>
      (if k \<le> length (freshDraws m n sr sc smp)
       then \<exists>b1. plantMines (makeEmptyBoard m n) m n k sr sc smp = Inr b1
       else plantMines (makeEmptyBoard m n) m n k sr sc smp = Inl SamplesExhausted))
   \<and> (let cfg = DIFFICULTIES d; every = allCells (rows cfg) (cols cfg) in
        drawsWithin (rows cfg) (cols cfg) smp \<longrightarrow>
          mines cfg \<le> length (freshDraws (rows cfg) (cols cfg) sr sc (smp @ every)) \<and>
          (\<exists>b1. plantMines (makeEmptyBoard (rows cfg) (cols cfg)) (rows cfg) (cols cfg) (mines cfg)
                  sr sc (smp @ every) = Inr b1))
   \<and> (plantMines (makeEmptyBoard m n) m n k sr sc smp = Inr b' \<longrightarrow>
        (\<forall>(r, c) \<in> set ((sr, sc) # neighbors sr sc).
            inBounds r c m n \<longrightarrow> (\<exists>cl. cellAt b' r c = Some cl \<and> \<not> isMine cl))
       \<and> length (filter isMine (concat b')) = k
       \<and> (\<forall>r c. inBounds r c m n \<longrightarrow>
            (\<exists>cl. cellAt b' r c = Some cl \<and>
                  count cl = (if isMine cl then 0 else minedNeighbours b' m n r c))))"
proof (intro conjI impI)
  assume "drawsWithin m n smp"
  from plantMines_returns[OF this]
  show "if k \<le> length (freshDraws m n sr sc smp)
       then \<exists>b1. plantMines (makeEmptyBoard m n) m n k sr sc smp = Inr b1
       else plantMines (makeEmptyBoard m n) m n k sr sc smp = Inl SamplesExhausted" .
next
  define cfg where "cfg = DIFFICULTIES d"
  let ?every = "allCells (rows cfg) (cols cfg)"
  have "mines cfg \<le> length (freshDraws (rows cfg) (cols cfg) sr sc (smp @ ?every)) \<and>
        (\<exists>b1. plantMines (makeEmptyBoard (rows cfg) (cols cfg)) (rows cfg) (cols cfg) (mines cfg)
                  sr sc (smp @ ?every) = Inr b1)"
    if dw: "drawsWithin (rows cfg) (cols cfg) smp"
  proof -
    from difficulty_room[of d] freshDraws_allCells[of "rows cfg" "cols cfg" sr sc smp]
    have en: "mines cfg \<le> length (freshDraws (rows cfg) (cols cfg) sr sc (smp @ ?every))"
      by (simp add: cfg_def)
    from dw have "drawsWithin (rows cfg) (cols cfg) (smp @ ?every)"
      by (simp add: drawsWithin_append drawsWithin_allCells)
    from plantMines_returns[OF this, of "mines cfg" sr sc] en show ?thesis by simp
  qed
  then show "let cfg = DIFFICULTIES d; every = allCells (rows cfg) (cols cfg) in
        drawsWithin (rows cfg) (cols cfg) smp \<longrightarrow>
          mines cfg \<le> length (freshDraws (rows cfg) (cols cfg) sr sc (smp @ every)) \<and>
          (\<exists>b1. plantMines (makeEmptyBoard (rows cfg) (cols cfg)) (rows cfg) (cols cfg) (mines cfg)
                  sr sc (smp @ every) = Inr b1)"
    unfolding Let_def cfg_def by blast
next
  assume run: "plantMines (makeEmptyBoard m n) m n k sr sc smp = Inr b'"
  let ?b = "makeEmptyBoard m n" and ?F = "forbiddenSet m n sr sc"
  from plantMines_spec[OF run rect_makeEmptyBoard] obtain b1 where
    r1: "rect m n b1" and r': "rect m n b'" and pf: "plantedFrom ?F ?b b1"
    and tally: "length (filter isMine (concat b1)) = length (filter isMine (concat ?b)) + k"
    and pw: "\<And>r c. cellAt b' r c = map_option (withCount b1 m n r c) (cellAt b1 r c)"
    by blast
  have mm: "\<And>r c. mineMap b' r c = mineMap b1 r c"
    by (simp add: mineMap_def pw option.map_comp comp_def isMine_withCount)
  have b1_cell: "\<exists>cl. cellAt b1 r c = Some cl \<and> count cl = 0 \<and> (isMine cl \<longrightarrow> (r, c) \<notin> ?F)"
    if "inBounds r c m n" for r c
  proof -
    from pf have "rel_option
        (\<lambda>cl cl'. isRevealed cl' = isRevealed cl \<and> isFlagged cl' = isFlagged cl \<and>
                   count cl' = count cl \<and> (isMine cl \<longrightarrow> isMine cl') \<and>
                   (isMine cl' \<and> \<not> isMine cl \<longrightarrow> (r, c) \<notin> ?F))
        (cellAt ?b r c) (cellAt b1 r c)" by (simp add: plantedFrom_def)
    with that show ?thesis
      by (cases "cellAt b1 r c") (auto simp: cellAt_makeEmptyBoard emptyCell_def)
  qed
  have safe: "\<exists>cl. cellAt b' r c = Some cl \<and> \<not> isMine cl"
    if "(r, c) \<in> set ((sr, sc) # neighbors sr sc)" "inBounds r c m n" for r c
  proof -
    from that have "(r, c) \<in> ?F" by (auto simp: forbiddenSet_def)
    with b1_cell[OF that(2)] show ?thesis by (auto simp: pw isMine_withCount)
  qed
  have "length (filter isMine (concat ?b)) = 0"
    using concat_makeEmptyBoard[of m n] by (auto simp: filter_empty_conv emptyCell_def)
  with tally have "length (filter isMine (concat b1)) = k" by simp
  moreover have "length (filter isMine (concat b')) = length (filter isMine (concat b1))"
    by (rule tally_cong[OF r1 r']) (use mm in \<open>simp add: mineMap_def\<close>)
  ultimately have total: "length (filter isMine (concat b')) = k" by simp
  have counts: "\<exists>cl. cellAt b' r c = Some cl \<and>
                  count cl = (if isMine cl then 0 else minedNeighbours b' m n r c)"
    if "inBounds r c m n" for r c
  proof -
    from b1_cell[OF that] obtain cl where cl: "cellAt b1 r c = Some cl" "count cl = 0" by blast
    then have "cellAt b' r c = Some (withCount b1 m n r c cl)" by (simp add: pw)
    moreover have "count (withCount b1 m n r c cl) =
        (if isMine (withCount b1 m n r c cl) then 0 else minedNeighbours b' m n r c)"
      using cl(2) minedNeighbours_cong[OF mm, of m n r c] by (simp add: withCount_def)
    ultimately show ?thesis by blast
  qed
  from safe show "\<forall>(r, c) \<in> set ((sr, sc) # neighbors sr sc).
            inBounds r c m n \<longrightarrow> (\<exists>cl. cellAt b' r c = Some cl \<and> \<not> isMine cl)" by blast
  from total show "length (filter isMine (concat b')) = k" .
  from counts show "\<forall>r c. inBounds r c m n \<longrightarrow>
            (\<exists>cl. cellAt b' r c = Some cl \<and>
                  count cl = (if isMine cl then 0 else minedNeighbours b' m n r c))" by blast
qed

text \<open>
  The Beginner board with first click \<open>(4, 4)\<close>: the thirteen draws name ten cells outside
  the forbidden set, so planting returns and the board has the three properties; the
  first twelve name nine, and the loop is still running at their end. On the Expert board
  the same draws followed by one draw of every cell are enough.
\<close>

theorem plantMines_postcondition_witness:
  "drawsWithin 9 9 beginnerDraws \<and> 10 \<le> length (freshDraws 9 9 4 4 beginnerDraws)
   \<and> (\<exists>b'. plantMines (makeEmptyBoard 9 9) 9 9 10 4 4 beginnerDraws = Inr b' \<and>
       (\<forall>(r, c) \<in> set ((4, 4) # neighbors 4 4).
            inBounds r c 9 9 \<longrightarrow> (\<exists>cl. cellAt b' r c = Some cl \<and> \<not> isMine cl))
       \<and> length (filter isMine (concat b')) = 10
       \<and> (\<forall>r c. inBounds r c 9 9 \<longrightarrow>
            (\<exists>cl. cellAt b' r c = Some cl \<and>
                  count cl = (if isMine cl then 0 else minedNeighbours b' 9 9 r c))))
   \<and> length (freshDraws 9 9 4 4 (take 12 beginnerDraws)) < 10
   \<and> plantMines (makeEmptyBoard 9 9) 9 9 10 4 4 (take 12 beginnerDraws) = Inl SamplesExhausted
   \<and> drawsWithin 16 30 beginnerDraws
   \<and> (\<exists>b'. plantMines (makeEmptyBoard 16 30) 16 30 99 4 4 (beginnerDraws @ allCells 16 30)
             = Inr b')"
proof -
  have dw: "drawsWithin 9 9 beginnerDraws" by code_simp
  have en: "10 \<le> length (freshDraws 9 9 4 4 beginnerDraws)" by code_simp
  have dw12: "drawsWithin 9 9 (take 12 beginnerDraws)" by code_simp
  have few: "length (freshDraws 9 9 4 4 (take 12 beginnerDraws)) < 10" by code_simp
  have dwx: "drawsWithin 16 30 beginnerDraws" by code_simp
  from plantMines_postcondition[of 9 9 beginnerDraws 10 4 4 Beginner undefined, THEN conjunct1]
    dw en
  obtain b' where run: "plantMines (makeEmptyBoard 9 9) 9 9 10 4 4 beginnerDraws = Inr b'"
    by auto
  from plantMines_postcondition[of 9 9 beginnerDraws 10 4 4 Beginner b',
      THEN conjunct2, THEN conjunct2] run
  have post: "(\<forall>(r, c) \<in> set ((4, 4) # neighbors 4 4).
            inBounds r c 9 9 \<longrightarrow> (\<exists>cl. cellAt b' r c = Some cl \<and> \<not> isMine cl))
       \<and> length (filter isMine (concat b')) = 10
       \<and> (\<forall>r c. inBounds r c 9 9 \<longrightarrow>
            (\<exists>cl. cellAt b' r c = Some cl \<and>
                  count cl = (if isMine cl then 0 else minedNeighbours b' 9 9 r c)))"
    by (rule mp)
  from plantMines_postcondition[of 9 9 "take 12 beginnerDraws" 10 4 4 Beginner undefined,
      THEN conjunct1] dw12 few
  have stuck: "plantMines (makeEmptyBoard 9 9) 9 9 10 4 4 (take 12 beginnerDraws)
                 = Inl SamplesExhausted" by simp
  from plantMines_postcondition[of 16 30 beginnerDraws 99 4 4 Expert undefined,
      THEN conjunct2, THEN conjunct1] dwx
  have every: "\<exists>b'. plantMines (makeEmptyBoard 16 30) 16 30 99 4 4
                      (beginnerDraws @ allCells 16 30) = Inr b'"
    by (simp add: Let_def)
  from dw en run post few stuck dwx every show ?thesis by blast
qed

section \<open>Claims about the state machine\<close>

lemma reachable_playing_planted: "reachable s \<Longrightarrow> status s = Playing \<Longrightarrow> minesPlanted s"
  using sessionInvD(2)[OF reachable_sessionInv] by simp

lemma cellAt_revealMines:
  "cellAt (revealMines b) r c
     = map_option (\<lambda>cel. if isMine cel then cel\<lparr>isRevealed := True\<rparr> else cel) (cellAt b r c)"
  unfolding revealMines_def by (rule cellAt_map)

text \<open>
  Claim C4. In a reachable session in phase \<open>playing\<close>, a reveal of an unrevealed,
  unflagged cell that is a mine returns a session in phase \<open>lost\<close>; in its grid every
  mine cell is revealed, and every cell that is not a mine is the cell it was.
\<close>

theorem reveal_mine_loses:
  assumes "reachable s" "status s = Playing"
    and "cellAt (board s) r c = Some cl" "isMine cl" "\<not> isRevealed cl" "\<not> isFlagged cl"
  shows "\<exists>s'. handleReveal s r c smp = Inr s' \<and> status s' = Lost \<and>
           (\<forall>y \<in> cells (board s'). isMine y \<longrightarrow> isRevealed y) \<and>
           (\<forall>r' c' x. cellAt (board s) r' c' = Some x \<longrightarrow>
              (\<exists>y. cellAt (board s') r' c' = Some y \<and> isMine y = isMine x \<and>
                    (\<not> isMine x \<longrightarrow> y = x)))"
proof -
  let ?s' = "s\<lparr>board := revealMines (board s), status := Lost\<rparr>"
  from reachable_playing_planted[OF assms(1,2)] have mp: "minesPlanted s" .
  then have "plantedBoard s r c smp = Inr (board s)" "started s = s"
    by (simp_all add: plantedBoard_def started_def)
  with assms(2-6) have run: "handleReveal s r c smp = Inr ?s'"
    by (simp add: handleReveal_unfold)
  have "isRevealed y" if "y \<in> cells (board ?s')" "isMine y" for y
  proof -
    from that(1) have "y \<in> cells (revealMines (board s))" by simp
    then obtain x0 where "x0 \<in> cells (board s)"
      "y = (if isMine x0 then x0\<lparr>isRevealed := True\<rparr> else x0)" by (rule cells_revealMinesE)
    with that(2) show ?thesis by (auto split: if_splits)
  qed
  moreover have "\<exists>y. cellAt (board ?s') r' c' = Some y \<and> isMine y = isMine x \<and>
                    (\<not> isMine x \<longrightarrow> y = x)"
    if "cellAt (board s) r' c' = Some x" for r' c' x
    using that by (simp add: cellAt_revealMines)
  ultimately show ?thesis using run by auto
qed

theorem reveal_mine_loses_witness:
  "reachable beginnerPlaying \<and> status beginnerPlaying = Playing \<and>
   cellAt (board beginnerPlaying) 0 8
     = Some \<lparr>isMine = True, isRevealed = False, isFlagged = False, count = 0\<rparr> \<and>
   (\<exists>s'. handleReveal beginnerPlaying 0 8 [] = Inr s' \<and> status s' = Lost \<and>
           (\<forall>y \<in> cells (board s'). isMine y \<longrightarrow> isRevealed y) \<and>
           (\<forall>r' c' x. cellAt (board beginnerPlaying) r' c' = Some x \<longrightarrow>
              (\<exists>y. cellAt (board s') r' c' = Some y \<and> isMine y = isMine x \<and>
                    (\<not> isMine x \<longrightarrow> y = x))))"
proof -
  have st: "status beginnerPlaying = Playing" by code_simp
  have at: "cellAt (board beginnerPlaying) 0 8
     = Some \<lparr>isMine = True, isRevealed = False, isFlagged = False, count = 0\<rparr>" by code_simp
  from reveal_mine_loses[OF reachable_beginnerPlaying st at, of "[]"]
       reachable_beginnerPlaying st at
  show ?thesis by simp
qed

text \<open>
  Claim C5, as the code has it. In every reachable session, a cell that is both revealed
  and flagged is a mine and the phase is \<open>lost\<close>: the reveal of all mines on a loss keeps
  the flags of the flagged mines. In the phases \<open>ready\<close>, \<open>playing\<close> and \<open>won\<close>, and for
  cells that are not mines, no cell is both revealed and flagged.
\<close>

theorem revealed_and_flagged_only_lost_mine:
  assumes "reachable s" "x \<in> cells (board s)" "isRevealed x" "isFlagged x"
  shows "isMine x \<and> status s = Lost"
proof -
  note inv = reachable_sessionInv[OF assms(1)]
  from sessionInvD(5)[OF inv assms(2,3,4)] have "isMine x" .
  with sessionInvD(4)[OF inv assms(2,3)] show ?thesis by simp
qed

theorem revealed_and_flagged_only_lost_mine_witness:
  "reachable beginnerLost \<and>
   \<lparr>isMine = True, isRevealed = True, isFlagged = True, count = 0\<rparr> \<in> cells (board beginnerLost) \<and>
   status beginnerLost = Lost"
proof -
  have "cellAt (board beginnerLost) 0 0
          = Some \<lparr>isMine = True, isRevealed = True, isFlagged = True, count = 0\<rparr>" by code_simp
  then have "\<lparr>isMine = True, isRevealed = True, isFlagged = True, count = 0\<rparr>
               \<in> cells (board beginnerLost)" by (rule in_cells_cellAt)
  from revealed_and_flagged_only_lost_mine[OF reachable_beginnerLost this] this
       reachable_beginnerLost
  show ?thesis by simp
qed

text \<open>
  After a flag on the mine at \<open>(0, 0)\<close> and a click on the mine at \<open>(0, 8)\<close>, the cell
  \<open>(0, 0)\<close> is revealed and flagged at once.
\<close>

theorem revealed_and_flagged_counterexample:
  "reachable beginnerLost \<and>
   cellAt (board beginnerLost) 0 0
     = Some \<lparr>isMine = True, isRevealed = True, isFlagged = True, count = 0\<rparr>"
proof
  show "reachable beginnerLost" by (rule reachable_beginnerLost)
  show "cellAt (board beginnerLost) 0 0
     = Some \<lparr>isMine = True, isRevealed = True, isFlagged = True, count = 0\<rparr>" by code_simp
qed

lemma setCell_same:
  assumes "cellAt b r c = Some cl"
  shows "setCell b r c cl = b"
proof -
  from assms have "cl = b ! nat r ! nat c" by (auto simp: cellAt_def split: if_splits)
  then show ?thesis by (simp add: setCell_def)
qed

lemma setCell_twice:
  assumes "cellAt b r c = Some cl"
  shows "setCell (setCell b r c x) r c y = setCell b r c y"
proof -
  from assms have "nat r < length b" by (auto simp: cellAt_def split: if_splits)
  then show ?thesis by (simp add: setCell_def)
qed

lemma handleFlag_rejected_budget:
  assumes "cellAt (board s) r c = Some cl" "\<not> isFlagged cl"
    "int (mines (DIFFICULTIES (difficulty s))) - int (countFlagged (board s)) = 0"
  shows "handleFlag s r c = Inr s"
  using assms by (simp add: handleFlag_def Let_def)

lemma handleFlag_toggles:
  assumes "status s \<noteq> Won" "status s \<noteq> Lost" "cellAt (board s) r c = Some cl" "\<not> isRevealed cl"
    "\<not> (\<not> isFlagged cl \<and>
        int (mines (DIFFICULTIES (difficulty s))) - int (countFlagged (board s)) = 0)"
  shows "handleFlag s r c = Inr (s\<lparr>board := setCell (board s) r c (cl\<lparr>isFlagged := \<not> isFlagged cl\<rparr>)\<rparr>)"
  using assms by (auto simp: handleFlag_def Let_def)

text \<open>
  Claim C7. \<open>flagsLeft\<close> is never negative. A toggle on an unflagged cell when
  \<open>mines - countFlagged(grid)\<close> is zero returns the session as it is, and in every
  reachable session at most \<open>mines\<close> cells are flagged, wherever the mines are. A toggle in
  a phase other than \<open>won\<close> and \<open>lost\<close> on an unrevealed cell that is not refused for the
  budget flips the \<open>isFlagged\<close> of that cell and changes nothing else.
\<close>

theorem flag_budget:
  "0 \<le> flagsLeft s \<and>
   (cellAt (board s) r c = Some cl \<and> \<not> isFlagged cl \<and>
      int (mines (DIFFICULTIES (difficulty s))) - int (countFlagged (board s)) = 0
      \<longrightarrow> handleFlag s r c = Inr s) \<and>
   (reachable s \<longrightarrow> countFlagged (board s) \<le> mines (DIFFICULTIES (difficulty s))) \<and>
   (status s \<noteq> Won \<and> status s \<noteq> Lost \<and> cellAt (board s) r c = Some cl \<and> \<not> isRevealed cl \<and>
      \<not> (\<not> isFlagged cl \<and>
          int (mines (DIFFICULTIES (difficulty s))) - int (countFlagged (board s)) = 0)
      \<longrightarrow> handleFlag s r c
            = Inr (s\<lparr>board := setCell (board s) r c (cl\<lparr>isFlagged := \<not> isFlagged cl\<rparr>)\<rparr>))"
proof (intro conjI impI)
  show "0 \<le> flagsLeft s" by (simp add: flagsLeft_def)
next
  assume "cellAt (board s) r c = Some cl \<and> \<not> isFlagged cl \<and>
      int (mines (DIFFICULTIES (difficulty s))) - int (countFlagged (board s)) = 0"
  then show "handleFlag s r c = Inr s" by (blast intro: handleFlag_rejected_budget)
next
  assume "reachable s"
  from sessionInvD(6)[OF reachable_sessionInv[OF this]]
  show "countFlagged (board s) \<le> mines (DIFFICULTIES (difficulty s))" .
next
  assume "status s \<noteq> Won \<and> status s \<noteq> Lost \<and> cellAt (board s) r c = Some cl \<and> \<not> isRevealed cl \<and>
      \<not> (\<not> isFlagged cl \<and>
          int (mines (DIFFICULTIES (difficulty s))) - int (countFlagged (board s)) = 0)"
  then show "handleFlag s r c
            = Inr (s\<lparr>board := setCell (board s) r c (cl\<lparr>isFlagged := \<not> isFlagged cl\<rparr>)\<rparr>)"
    by (intro handleFlag_toggles) blast+
qed

theorem flag_budget_witness:
  "reachable tenFlags \<and> countFlagged (board tenFlags) = 10 \<and> flagsLeft tenFlags = 0 \<and>
   cellAt (board tenFlags) 1 1 = Some emptyCell \<and> handleFlag tenFlags 1 1 = Inr tenFlags \<and>
   status (newSession Beginner) = Ready \<and>
   cellAt (board (newSession Beginner)) 0 0 = Some emptyCell \<and>
   handleFlag (newSession Beginner) 0 0
     = Inr ((newSession Beginner)
             \<lparr>board := setCell (board (newSession Beginner)) 0 0 (emptyCell\<lparr>isFlagged := True\<rparr>)\<rparr>)"
proof -
  have n: "countFlagged (board tenFlags) = 10" by code_simp
  have d: "mines (DIFFICULTIES (difficulty tenFlags)) = 10" by code_simp
  have a: "cellAt (board tenFlags) 1 1 = Some emptyCell" by code_simp
  have a0: "cellAt (board (newSession Beginner)) 0 0 = Some emptyCell" by code_simp
  have st: "status (newSession Beginner) = Ready" by (simp add: newSession_def)
  have n0: "countFlagged (board (newSession Beginner)) = 0" by code_simp
  have d0: "mines (DIFFICULTIES (difficulty (newSession Beginner))) = 10"
    by (simp add: newSession_def)
  from flag_budget[of tenFlags 1 1 emptyCell] n d a reachable_tenFlags
  have "handleFlag tenFlags 1 1 = Inr tenFlags" "0 \<le> flagsLeft tenFlags"
    by (simp_all add: emptyCell_def)
  moreover have "flagsLeft tenFlags = 0" by (simp add: flagsLeft_def n d)
  moreover from flag_budget[of "newSession Beginner" 0 0 emptyCell] a0 st n0 d0
  have "handleFlag (newSession Beginner) 0 0
     = Inr ((newSession Beginner)
             \<lparr>board := setCell (board (newSession Beginner)) 0 0 (emptyCell\<lparr>isFlagged := True\<rparr>)\<rparr>)"
    by (simp add: emptyCell_def)
  ultimately show ?thesis using n a a0 st reachable_tenFlags by simp
qed

text \<open>
  Claim C10. In a reachable session in a phase other than \<open>won\<close> and \<open>lost\<close>, if a toggle
  on an unrevealed cell is accepted (the grid it returns differs from the given one), then
  the same toggle on the session it returns is accepted as well and returns the session
  from before the first toggle, grid included.
\<close>

theorem toggleFlag_twice:
  assumes "reachable s" "status s \<noteq> Won" "status s \<noteq> Lost"
    and "cellAt (board s) r c = Some cl" "\<not> isRevealed cl"
    and "handleFlag s r c = Inr s1" "board s1 \<noteq> board s"
  shows "handleFlag s1 r c = Inr s"
  using assms(6)
proof (cases rule: handleFlag_cases)
  case terminal
  with assms(7) show ?thesis by simp
next
  case (revealed cl')
  with assms(7) show ?thesis by simp
next
  case (exhausted cl')
  with assms(7) show ?thesis by simp
next
  case (toggled cl')
  with assms(4) have cl': "cl' = cl" by simp
  let ?x = "cl\<lparr>isFlagged := \<not> isFlagged cl\<rparr>"
  have s1: "s1 = s\<lparr>board := setCell (board s) r c ?x\<rparr>" using toggled(6) cl' by simp
  have at1: "cellAt (board s1) r c = Some ?x"
    by (simp add: s1 cellAt_setCell'[OF assms(4)])
  have budget: "\<not> (\<not> isFlagged ?x \<and>
        int (mines (DIFFICULTIES (difficulty s1))) - int (countFlagged (board s1)) = 0)"
  proof (cases "isFlagged cl")
    case False
    then show ?thesis by simp
  next
    case True
    from tally_setCell[OF assms(4), of isFlagged ?x] True
    have "countFlagged (board s1) + 1 = countFlagged (board s)"
      by (simp add: s1 countFlagged_def)
    moreover from sessionInvD(6)[OF reachable_sessionInv[OF assms(1)]]
    have "countFlagged (board s) \<le> mines (DIFFICULTIES (difficulty s))" .
    ultimately show ?thesis by (simp add: s1)
  qed
  have "handleFlag s1 r c
          = Inr (s1\<lparr>board := setCell (board s1) r c (?x\<lparr>isFlagged := \<not> isFlagged ?x\<rparr>)\<rparr>)"
    by (rule handleFlag_toggles[OF _ _ at1 _ budget]) (use assms(2,3,5) in \<open>simp_all add: s1\<close>)
  moreover have "?x\<lparr>isFlagged := \<not> isFlagged ?x\<rparr> = cl" by simp
  moreover have "setCell (board s1) r c cl = board s"
    by (simp add: s1 setCell_twice[OF assms(4)] setCell_same[OF assms(4)])
  ultimately show ?thesis by (simp add: s1)
qed

theorem toggleFlag_twice_witness:
  "reachable flaggedFresh \<and> status flaggedFresh = Ready \<and>
   cellAt (board flaggedFresh) 0 0 = Some (emptyCell\<lparr>isFlagged := True\<rparr>) \<and>
   handleFlag flaggedFresh 0 0 = Inr (newSession Beginner) \<and>
   board (newSession Beginner) \<noteq> board flaggedFresh \<and>
   handleFlag (newSession Beginner) 0 0 = Inr flaggedFresh"
proof -
  have st: "status flaggedFresh = Ready" by code_simp
  have st': "status flaggedFresh \<noteq> Won" "status flaggedFresh \<noteq> Lost" by (simp_all add: st)
  have at: "cellAt (board flaggedFresh) 0 0 = Some (emptyCell\<lparr>isFlagged := True\<rparr>)" by code_simp
  have un: "\<not> isRevealed (emptyCell\<lparr>isFlagged := True\<rparr>)" by (simp add: emptyCell_def)
  have run: "handleFlag flaggedFresh 0 0 = Inr (newSession Beginner)" by code_simp
  have ne: "board (newSession Beginner) \<noteq> board flaggedFresh" by code_simp
  from toggleFlag_twice[OF reachable_flaggedFresh st' at un run ne]
       reachable_flaggedFresh st at run ne
  show ?thesis by simp
qed

text \<open>
  The rejections that leave the whole session as it is: any intent in a terminal phase, a
  reveal of a revealed or flagged cell once the mines are planted, a toggle on a revealed
  cell, and a toggle refused for the budget.
\<close>

lemma rejections_keep_session:
  "(status s = Won \<or> status s = Lost \<longrightarrow> handleReveal s r c smp = Inr s \<and> handleFlag s r c = Inr s) \<and>
   (minesPlanted s \<and> cellAt (board s) r c = Some cl \<and> (isRevealed cl \<or> isFlagged cl)
      \<longrightarrow> handleReveal s r c smp = Inr s) \<and>
   (cellAt (board s) r c = Some cl \<and> isRevealed cl \<longrightarrow> handleFlag s r c = Inr s) \<and>
   (cellAt (board s) r c = Some cl \<and> \<not> isFlagged cl \<and>
      int (mines (DIFFICULTIES (difficulty s))) - int (countFlagged (board s)) = 0
      \<longrightarrow> handleFlag s r c = Inr s)"
proof (intro conjI impI)
  assume "status s = Won \<or> status s = Lost"
  then show "handleReveal s r c smp = Inr s" "handleFlag s r c = Inr s"
    by (auto simp: handleReveal_unfold handleFlag_def)
next
  assume a: "minesPlanted s \<and> cellAt (board s) r c = Some cl \<and> (isRevealed cl \<or> isFlagged cl)"
  then have "plantedBoard s r c smp = Inr (board s)" "started s = s"
    by (simp_all add: plantedBoard_def started_def)
  with a show "handleReveal s r c smp = Inr s" by (auto simp: handleReveal_unfold)
next
  assume "cellAt (board s) r c = Some cl \<and> isRevealed cl"
  then show "handleFlag s r c = Inr s" by (simp add: handleFlag_def Let_def)
next
  assume "cellAt (board s) r c = Some cl \<and> \<not> isFlagged cl \<and>
      int (mines (DIFFICULTIES (difficulty s))) - int (countFlagged (board s)) = 0"
  then show "handleFlag s r c = Inr s" by (blast intro: handleFlag_rejected_budget)
qed

text \<open>
  The first reveal of a game on a flagged cell is rejected only as far as the board goes:
  the mines are planted on the clone, which is dropped, and the session is marked as
  planted and playing.
\<close>

lemma first_reveal_on_flag:
  assumes "status s = Ready" "\<not> minesPlanted s"
    and "plantMines (board s) (rows (DIFFICULTIES (difficulty s)))
           (cols (DIFFICULTIES (difficulty s))) (mines (DIFFICULTIES (difficulty s))) r c smp
         = Inr nxt"
    and "cellAt nxt r c = Some cl" "isFlagged cl"
  shows "handleReveal s r c smp = Inr (s\<lparr>minesPlanted := True, status := Playing, seconds := 0\<rparr>)"
  using assms by (simp add: handleReveal_unfold plantedBoard_def started_def)

text \<open>
  Claim C6, evaluated where the code departs from it. In a new Beginner game with a flag
  on \<open>(0, 0)\<close>, the reveal of \<open>(0, 0)\<close> returns the board unchanged, without a mine, but
  sets \<open>minesPlanted\<close> and moves the phase from \<open>ready\<close> to \<open>playing\<close>.
\<close>

theorem first_reveal_on_flag_changes_session:
  "reachable flaggedFresh \<and> status flaggedFresh = Ready \<and> \<not> minesPlanted flaggedFresh \<and>
   cellAt (board flaggedFresh) 0 0 = Some (emptyCell\<lparr>isFlagged := True\<rparr>) \<and>
   handleReveal flaggedFresh 0 0 beginnerDraws
     = Inr (flaggedFresh\<lparr>minesPlanted := True, status := Playing\<rparr>)"
proof (intro conjI)
  show "reachable flaggedFresh" by (rule reachable_flaggedFresh)
  show "status flaggedFresh = Ready" by code_simp
  show "\<not> minesPlanted flaggedFresh" by code_simp
  show "cellAt (board flaggedFresh) 0 0 = Some (emptyCell\<lparr>isFlagged := True\<rparr>)" by code_simp
  show "handleReveal flaggedFresh 0 0 beginnerDraws
     = Inr (flaggedFresh\<lparr>minesPlanted := True, status := Playing\<rparr>)" by code_simp
qed

text \<open>
  What holds of the win test in every reachable session: the phase is \<open>won\<close> exactly when
  the revealed cells that are not mines number \<open>rows * cols - mines\<close>, and then every mine
  cell is flagged.
\<close>

lemma reachable_won_iff:
  assumes "reachable s"
  shows "(status s = Won \<longleftrightarrow> int (countRevealedSafe (board s)) = totalSafe s) \<and>
         (status s = Won \<longrightarrow> (\<forall>x \<in> cells (board s). isMine x \<longrightarrow> isFlagged x))"
  using sessionInvD(7,8)[OF reachable_sessionInv[OF assms]] by blast

text \<open>
  Claim C3, evaluated where the code departs from it. From ten flags in a new Beginner
  game, a click on the flagged cell \<open>(0, 0)\<close> and a click on \<open>(8, 8)\<close> end in phase \<open>won\<close>:
  71 cells are revealed and none is a mine, which is \<open>rows * cols - mines\<close>, while the ten
  flagged cells are not mines and are not revealed.
\<close>

theorem won_with_safe_cells_unrevealed:
  "reachable wonEarly \<and> status wonEarly = Won \<and>
   int (countRevealedSafe (board wonEarly)) = totalSafe wonEarly \<and>
   length (filter isMine (concat (board wonEarly))) = 0 \<and>
   cellAt (board wonEarly) 0 0
     = Some \<lparr>isMine = False, isRevealed = False, isFlagged = True, count = 0\<rparr>"
proof (intro conjI)
  show "reachable wonEarly" by (rule reachable_wonEarly)
  show w: "status wonEarly = Won" by code_simp
  from w reachable_won_iff[OF reachable_wonEarly]
  show "int (countRevealedSafe (board wonEarly)) = totalSafe wonEarly" by simp
  show "length (filter isMine (concat (board wonEarly))) = 0" by code_simp
  show "cellAt (board wonEarly) 0 0
     = Some \<lparr>isMine = False, isRevealed = False, isFlagged = True, count = 0\<rparr>" by code_simp
qed

text \<open>
  Claim C8, as the code has it. The handlers have no bounds check. For a coordinate outside
  the grid of a reachable session, a reveal or a toggle in phase \<open>won\<close> or \<open>lost\<close> returns
  the session as it is, because the phase is tested first; in phase \<open>ready\<close> or \<open>playing\<close>
  the toggle throws a \<open>TypeError\<close> and the reveal returns no session either: it throws a
  \<open>TypeError\<close>, after planting the mines if that was still to do.
\<close>

theorem out_of_bounds_intents:
  assumes "reachable s"
    and "\<not> inBounds r c (rows (DIFFICULTIES (difficulty s))) (cols (DIFFICULTIES (difficulty s)))"
  shows "(status s = Won \<or> status s = Lost \<longrightarrow>
            handleReveal s r c smp = Inr s \<and> handleFlag s r c = Inr s) \<and>
         (status s \<noteq> Won \<and> status s \<noteq> Lost \<longrightarrow>
            handleFlag s r c = Inl TypeError \<and>
            (\<exists>e. handleReveal s r c smp = Inl e) \<and>
            (minesPlanted s \<or> \<not> isl (plantedBoard s r c smp)
               \<longrightarrow> handleReveal s r c smp = Inl TypeError))"
proof (intro conjI impI)
  assume "status s = Won \<or> status s = Lost"
  then show "handleReveal s r c smp = Inr s" "handleFlag s r c = Inr s"
    by (auto simp: handleReveal_unfold handleFlag_def)
next
  note rb = sessionInvD(1)[OF reachable_sessionInv[OF assms(1)]]
  assume st: "status s \<noteq> Won \<and> status s \<noteq> Lost"
  from rb assms(2) have none: "cellAt (board s) r c = None" by (simp add: cellAt_rect)
  with st show "handleFlag s r c = Inl TypeError" by (simp add: handleFlag_def Let_def)
  have nxt_none: "cellAt nxt r c = None" if "plantedBoard s r c smp = Inr nxt" for nxt
    using plantedBoard_cellwise(1)[OF that rb] assms(2) by (simp add: cellAt_rect)
  show "\<exists>e. handleReveal s r c smp = Inl e"
    using st nxt_none by (cases "plantedBoard s r c smp") (auto simp: handleReveal_unfold)
  show "handleReveal s r c smp = Inl TypeError"
    if "minesPlanted s \<or> \<not> isl (plantedBoard s r c smp)"
  proof -
    from that obtain nxt where "plantedBoard s r c smp = Inr nxt"
      by (cases "plantedBoard s r c smp") (auto simp: plantedBoard_def)
    with st nxt_none[OF this] show ?thesis by (simp add: handleReveal_unfold)
  qed
qed

theorem out_of_bounds_intents_witness:
  "reachable (newSession Beginner) \<and> \<not> inBounds (- 1) 0 9 9 \<and>
   handleFlag (newSession Beginner) (- 1) 0 = Inl TypeError \<and>
   handleReveal (newSession Beginner) (- 1) 0 beginnerDraws = Inl TypeError \<and>
   reachable beginnerLost \<and> status beginnerLost = Lost \<and>
   handleReveal beginnerLost (- 1) 0 [] = Inr beginnerLost \<and>
   handleFlag beginnerLost (- 1) 0 = Inr beginnerLost"
proof -
  have oob: "\<not> inBounds (- 1) 0 9 9" by (simp add: inBounds_def)
  have d: "rows (DIFFICULTIES (difficulty (newSession Beginner))) = 9"
    "cols (DIFFICULTIES (difficulty (newSession Beginner))) = 9"
    "status (newSession Beginner) = Ready"
    by (simp_all add: newSession_def)
  have p: "\<not> isl (plantedBoard (newSession Beginner) (- 1) 0 beginnerDraws)" by code_simp
  have dl: "rows (DIFFICULTIES (difficulty beginnerLost)) = 9"
    "cols (DIFFICULTIES (difficulty beginnerLost)) = 9" "status beginnerLost = Lost"
    by code_simp+
  from out_of_bounds_intents[OF reachable.mount, of "- 1" 0 beginnerDraws] oob d p
  have "handleFlag (newSession Beginner) (- 1) 0 = Inl TypeError"
    "handleReveal (newSession Beginner) (- 1) 0 beginnerDraws = Inl TypeError" by simp_all
  moreover from out_of_bounds_intents[OF reachable_beginnerLost, of "- 1" 0 "[]"] oob dl
  have "handleReveal beginnerLost (- 1) 0 [] = Inr beginnerLost"
    "handleFlag beginnerLost (- 1) 0 = Inr beginnerLost" by simp_all
  ultimately show ?thesis using oob dl(3) reachable.mount reachable_beginnerLost by simp
qed

text \<open>A toggle and a reveal outside the grid of a new game throw instead of returning.\<close>

theorem out_of_bounds_counterexample:
  "handleFlag (newSession Beginner) (- 1) 0 = Inl TypeError \<and>
   handleReveal (newSession Beginner) 0 9 beginnerDraws = Inl TypeError"
  by code_simp

section \<open>The handlers on a store of cell objects\<close>

text \<open>
  For the copy-on-write discipline the identity of the cell objects matters. Here the
  cells live in a store, a list of objects addressed by position; a board is an array of
  rows of addresses. The source never assigns into a board or row array (it builds them
  with \<open>Array.from\<close> and \<open>map\<close>), so these arrays are values; it assigns to fields of cell
  objects, which are writes to the store; an object literal allocates at the end of the
  store. The functions below are the ones above, again from the source, with every read and
  write of a cell going through the store.
\<close>

definition refAt :: "nat list list \<Rightarrow> int \<Rightarrow> int \<Rightarrow> nat option" where
  "refAt refs r c =
     (if 0 \<le> r \<and> nat r < length refs \<and> 0 \<le> c \<and> nat c < length (refs ! nat r)
      then Some (refs ! nat r ! nat c) else None)"

text \<open>\<open>board[r][c]\<close> with its object, \<open>None\<close> where a property access on it throws.\<close>

definition objAt :: "cell list \<Rightarrow> nat list list \<Rightarrow> int \<Rightarrow> int \<Rightarrow> (nat \<times> cell) option" where
  "objAt h refs r c =
     (case refAt refs r c of
        None \<Rightarrow> None
      | Some a \<Rightarrow> if a < length h then Some (a, h ! a) else None)"

text \<open>\<open>row.map(cell => ({ ...cell }))\<close> and \<open>board.map(row => ...)\<close>: a new object per cell.\<close>

fun cloneRowH :: "cell list \<Rightarrow> nat list \<Rightarrow> cell list \<times> nat list" where
  "cloneRowH h [] = (h, [])"
| "cloneRowH h (a # as) =
     (case cloneRowH (h @ [h ! a]) as of (h', row') \<Rightarrow> (h', length h # row'))"

fun cloneBoardH :: "cell list \<Rightarrow> nat list list \<Rightarrow> cell list \<times> nat list list" where
  "cloneBoardH h [] = (h, [])"
| "cloneBoardH h (row # refs) =
     (case cloneRowH h row of (h1, row') \<Rightarrow>
        (case cloneBoardH h1 refs of (h2, refs') \<Rightarrow> (h2, row' # refs')))"

fun plantLoopH ::
  "cell list \<Rightarrow> nat list list \<Rightarrow> nat \<Rightarrow> (int \<times> int) set \<Rightarrow> (nat \<times> nat) list \<Rightarrow> nat \<Rightarrow> error + cell list"
where
  "plantLoopH h refs k forbidden [] planted =
     (if planted < k then Inl SamplesExhausted else Inr h)"
| "plantLoopH h refs k forbidden ((r, c) # samples) planted =
     (if planted < k then
        (if (int r, int c) \<in> forbidden then plantLoopH h refs k forbidden samples planted
         else (case objAt h refs (int r) (int c) of
                 None \<Rightarrow> Inl TypeError
               | Some (a, cl) \<Rightarrow>
                   if \<not> isMine cl
                   then plantLoopH (h[a := cl\<lparr>isMine := True\<rparr>]) refs k forbidden samples
                          (planted + 1)
                   else plantLoopH h refs k forbidden samples planted))
      else Inr h)"

fun countMinesH ::
  "cell list \<Rightarrow> nat list list \<Rightarrow> nat \<Rightarrow> nat \<Rightarrow> (int \<times> int) list \<Rightarrow> nat \<Rightarrow> error + nat"
where
  "countMinesH h refs m n [] cnt = Inr cnt"
| "countMinesH h refs m n ((nr, nc) # ns) cnt =
     (if inBounds nr nc m n then
        (case objAt h refs nr nc of
           None \<Rightarrow> Inl TypeError
         | Some (a, cl) \<Rightarrow> countMinesH h refs m n ns (if isMine cl then cnt + 1 else cnt))
      else countMinesH h refs m n ns cnt)"

fun countColsH ::
  "cell list \<Rightarrow> nat list list \<Rightarrow> nat \<Rightarrow> nat \<Rightarrow> nat \<Rightarrow> nat list \<Rightarrow> error + cell list"
where
  "countColsH h refs m n r [] = Inr h"
| "countColsH h refs m n r (c # cs) =
     (case objAt h refs (int r) (int c) of
        None \<Rightarrow> Inl TypeError
      | Some (a, cl) \<Rightarrow>
          if isMine cl then countColsH h refs m n r cs
          else (case countMinesH h refs m n (neighbors (int r) (int c)) 0 of
                  Inl e \<Rightarrow> Inl e
                | Inr cnt \<Rightarrow> countColsH (h[a := cl\<lparr>count := cnt\<rparr>]) refs m n r cs))"

fun countRowsH ::
  "cell list \<Rightarrow> nat list list \<Rightarrow> nat \<Rightarrow> nat \<Rightarrow> nat list \<Rightarrow> error + cell list"
where
  "countRowsH h refs m n [] = Inr h"
| "countRowsH h refs m n (r # rs) =
     (case countColsH h refs m n r [0..<n] of
        Inl e \<Rightarrow> Inl e
      | Inr h' \<Rightarrow> countRowsH h' refs m n rs)"

definition plantMinesH ::
  "cell list \<Rightarrow> nat list list \<Rightarrow> nat \<Rightarrow> nat \<Rightarrow> nat \<Rightarrow> int \<Rightarrow> int \<Rightarrow> (nat \<times> nat) list
     \<Rightarrow> error + cell list"
where
  "plantMinesH h refs m n k safeR safeC samples =
     (case plantLoopH h refs k (forbiddenSet m n safeR safeC) samples 0 of
        Inl e \<Rightarrow> Inl e
      | Inr h' \<Rightarrow> countRowsH h' refs m n [0..<m])"

fun floodNeighborsH ::
  "cell list \<Rightarrow> nat list list \<Rightarrow> nat \<Rightarrow> nat \<Rightarrow> (int \<times> int) list \<Rightarrow> (int \<times> int) list
     \<Rightarrow> (int \<times> int) set \<Rightarrow> error + (cell list \<times> (int \<times> int) list \<times> (int \<times> int) set)"
where
  "floodNeighborsH h refs m n [] q seen = Inr (h, q, seen)"
| "floodNeighborsH h refs m n ((nr, nc) # ns) q seen =
     (if \<not> inBounds nr nc m n then floodNeighborsH h refs m n ns q seen
      else if \<not> nat nr < length refs then Inl TypeError
      else if (nr, nc) \<in> seen then floodNeighborsH h refs m n ns q seen
      else (case objAt h refs nr nc of
              None \<Rightarrow> Inl TypeError
            | Some (a, cell) \<Rightarrow>
                if \<not> isRevealed cell \<and> \<not> isFlagged cell \<and> \<not> isMine cell
                then floodNeighborsH (h[a := cell\<lparr>isRevealed := True\<rparr>]) refs m n ns
                       (if count cell = 0 then q @ [(nr, nc)] else q) (insert (nr, nc) seen)
                else floodNeighborsH h refs m n ns q seen))"

definition unrevealedH :: "cell list \<Rightarrow> nat list list \<Rightarrow> nat" where
  "unrevealedH h b = length (filter (\<lambda>a. a < length h \<and> \<not> isRevealed (h ! a)) (concat b))"

lemma refAt_mem: "refAt b r c = Some a \<Longrightarrow> a \<in> set (concat b)"
proof -
  assume "refAt b r c = Some a"
  then have "nat r < length b" "nat c < length (b ! nat r)" "a = b ! nat r ! nat c"
    by (auto simp: refAt_def split: if_splits)
  then have "b ! nat r \<in> set b" "a \<in> set (b ! nat r)" by auto
  then show ?thesis by auto
qed

lemma objAt_mem: "objAt h b r c = Some (a, cl) \<Longrightarrow> a \<in> set (concat b) \<and> a < length h \<and> cl = h ! a"
  using refAt_mem[of b r c a]
  by (cases "refAt b r c") (auto simp: objAt_def split: if_splits)

lemma unrevealed_after_write:
  "(x < length (h[a := cl\<lparr>isRevealed := True\<rparr>]) \<and>
      \<not> isRevealed (h[a := cl\<lparr>isRevealed := True\<rparr>] ! x))
   = ((x < length h \<and> \<not> isRevealed (h ! x)) \<and> x \<noteq> a)"
  by (cases "x = a") auto

lemma unrevealedH_reveal_le:
  "unrevealedH (h[a := cl\<lparr>isRevealed := True\<rparr>]) b \<le> unrevealedH h b"
proof -
  have "filter (\<lambda>x. x < length (h[a := cl\<lparr>isRevealed := True\<rparr>]) \<and>
                   \<not> isRevealed (h[a := cl\<lparr>isRevealed := True\<rparr>] ! x)) (concat b)
        = filter (\<lambda>x. x \<noteq> a) (filter (\<lambda>x. x < length h \<and> \<not> isRevealed (h ! x)) (concat b))"
    unfolding filter_filter unrevealed_after_write by (rule filter_cong) auto
  then show ?thesis unfolding unrevealedH_def by (metis length_filter_le)
qed

lemma unrevealedH_reveal_less:
  assumes "a \<in> set (concat b)" "a < length h" "\<not> isRevealed (h ! a)"
  shows "unrevealedH (h[a := cl\<lparr>isRevealed := True\<rparr>]) b < unrevealedH h b"
proof -
  let ?xs = "filter (\<lambda>x. x < length h \<and> \<not> isRevealed (h ! x)) (concat b)"
  have "filter (\<lambda>x. x < length (h[a := cl\<lparr>isRevealed := True\<rparr>]) \<and>
                   \<not> isRevealed (h[a := cl\<lparr>isRevealed := True\<rparr>] ! x)) (concat b)
        = filter (\<lambda>x. x \<noteq> a) ?xs"
    unfolding filter_filter unrevealed_after_write by (rule filter_cong) auto
  moreover have "a \<in> set ?xs" using assms by simp
  then have "length (filter (\<lambda>x. x \<noteq> a) ?xs) < length ?xs"
    by (rule length_filter_less) simp
  ultimately show ?thesis unfolding unrevealedH_def by simp
qed

lemma floodNeighborsH_measure:
  "floodNeighborsH h b m n ns q seen = Inr (h', q', seen') \<Longrightarrow>
   unrevealedH h' b + length q' \<le> unrevealedH h b + length q"
proof (induction ns arbitrary: h q seen)
  case Nil
  then show ?case by simp
next
  case (Cons p ns)
  obtain nr nc where p: "p = (nr, nc)" by (cases p)
  show ?case
  proof (cases "\<not> inBounds nr nc m n \<or> (nr, nc) \<in> seen")
    case True
    with Cons.prems have "floodNeighborsH h b m n ns q seen = Inr (h', q', seen')"
      by (auto simp: p split: if_splits)
    from Cons.IH[OF this] show ?thesis .
  next
    case False
    with Cons.prems obtain a cl where at: "objAt h b nr nc = Some (a, cl)"
      by (cases "objAt h b nr nc") (auto simp: p split: if_splits)
    note m = objAt_mem[OF at]
    show ?thesis
    proof (cases "\<not> isRevealed cl \<and> \<not> isFlagged cl \<and> \<not> isMine cl")
      case True
      with False at Cons.prems have
        "floodNeighborsH (h[a := cl\<lparr>isRevealed := True\<rparr>]) b m n ns
           (if count cl = 0 then q @ [(nr, nc)] else q) (insert (nr, nc) seen) = Inr (h', q', seen')"
        by (auto simp: p split: if_splits)
      from Cons.IH[OF this] unrevealedH_reveal_less[of a b h cl] m True show ?thesis
        by (auto split: if_splits)
    next
      case nope: False
      with False at Cons.prems have "floodNeighborsH h b m n ns q seen = Inr (h', q', seen')"
        by (auto simp: p split: if_splits)
      from Cons.IH[OF this] show ?thesis .
    qed
  qed
qed

function floodLoopH ::
  "cell list \<Rightarrow> nat list list \<Rightarrow> nat \<Rightarrow> nat \<Rightarrow> (int \<times> int) list \<Rightarrow> (int \<times> int) set
     \<Rightarrow> error + cell list"
where
  "floodLoopH h refs m n [] seen = Inr h"
| "floodLoopH h refs m n ((r, c) # q) seen =
     (case objAt h refs r c of
        None \<Rightarrow> Inl TypeError
      | Some (a, cell) \<Rightarrow>
          if count cell = 0 then
            (case floodNeighborsH (h[a := cell\<lparr>isRevealed := True\<rparr>]) refs m n
                    (neighbors r c) q seen of
               Inl e \<Rightarrow> Inl e
             | Inr (h', q', seen') \<Rightarrow> floodLoopH h' refs m n q' seen')
          else floodLoopH (h[a := cell\<lparr>isRevealed := True\<rparr>]) refs m n q seen)"
  by pat_completeness auto
termination
proof (relation "measure (\<lambda>(h, b, m, n, q, seen). unrevealedH h b + length q)")
  show "wf (measure (\<lambda>(h, b, m, n, q, seen). unrevealedH h b + length q))" by simp
next
  fix h :: "cell list" and refs :: "nat list list" and m n :: nat and r c :: int
    and q seen x2 a cl x2a h' y q' seen'
  assume "objAt h refs r c = Some x2" "(a, cl) = x2" "count cl = 0"
    and fn: "floodNeighborsH (h[a := cl\<lparr>isRevealed := True\<rparr>]) refs m n
               (neighbors r c) q seen = Inr x2a"
    and x2: "(h', y) = x2a" "(q', seen') = y"
  from fn x2 have "floodNeighborsH (h[a := cl\<lparr>isRevealed := True\<rparr>]) refs m n
               (neighbors r c) q seen = Inr (h', q', seen')" by simp
  from floodNeighborsH_measure[OF this] unrevealedH_reveal_le[of h a cl refs]
  show "((h', refs, m, n, q', seen'), (h, refs, m, n, (r, c) # q, seen))
          \<in> measure (\<lambda>(h, b, m, n, q, seen). unrevealedH h b + length q)" by simp
next
  fix h :: "cell list" and refs :: "nat list list" and m n :: nat and r c :: int
    and q seen x2 a cl
  assume "objAt h refs r c = Some x2" "(a, cl) = x2" "count cl \<noteq> 0"
  from unrevealedH_reveal_le[of h a cl refs]
  show "((h[a := cl\<lparr>isRevealed := True\<rparr>], refs, m, n, q, seen),
         (h, refs, m, n, (r, c) # q, seen))
          \<in> measure (\<lambda>(h, b, m, n, q, seen). unrevealedH h b + length q)" by simp
qed

definition floodRevealH :: "cell list \<Rightarrow> nat list list \<Rightarrow> int \<Rightarrow> int \<Rightarrow> error + cell list" where
  "floodRevealH h refs startR startC =
     (case refs of
        [] \<Rightarrow> Inl TypeError
      | row0 # _ \<Rightarrow>
          floodLoopH h refs (length refs) (length row0) [(startR, startC)] {(startR, startC)})"

text \<open>
  \<open>next.map(row => row.map(cel => (cel.isMine ? { ...cel, f: true } : cel)))\<close>: a new
  object for a mine, the same object otherwise.
\<close>

fun mapMinesRowH :: "(cell \<Rightarrow> cell) \<Rightarrow> cell list \<Rightarrow> nat list \<Rightarrow> cell list \<times> nat list" where
  "mapMinesRowH f h [] = (h, [])"
| "mapMinesRowH f h (a # as) =
     (if isMine (h ! a)
      then (case mapMinesRowH f (h @ [f (h ! a)]) as of (h', row') \<Rightarrow> (h', length h # row'))
      else (case mapMinesRowH f h as of (h', row') \<Rightarrow> (h', a # row')))"

fun mapMinesH :: "(cell \<Rightarrow> cell) \<Rightarrow> cell list \<Rightarrow> nat list list \<Rightarrow> cell list \<times> nat list list" where
  "mapMinesH f h [] = (h, [])"
| "mapMinesH f h (row # refs) =
     (case mapMinesRowH f h row of (h1, row') \<Rightarrow>
        (case mapMinesH f h1 refs of (h2, refs') \<Rightarrow> (h2, row' # refs')))"

definition revealMinesH :: "cell list \<Rightarrow> nat list list \<Rightarrow> cell list \<times> nat list list" where
  "revealMinesH h refs = mapMinesH (\<lambda>cel. cel\<lparr>isRevealed := True\<rparr>) h refs"

definition flagMinesH :: "cell list \<Rightarrow> nat list list \<Rightarrow> cell list \<times> nat list list" where
  "flagMinesH h refs = mapMinesH (\<lambda>cel. cel\<lparr>isFlagged := True\<rparr>) h refs"

text \<open>
  The updater that \<open>handleReveal\<close> passes to \<open>setBoard\<close>: from the store and the board
  \<open>prev\<close> to the store after the call and the board returned. The session supplies what
  the closure has captured: \<open>status\<close>, \<open>minesPlanted\<close> and the difficulty.
\<close>

definition handleRevealH ::
  "cell list \<Rightarrow> nat list list \<Rightarrow> session \<Rightarrow> int \<Rightarrow> int \<Rightarrow> (nat \<times> nat) list
     \<Rightarrow> error + (cell list \<times> nat list list)"
where
  "handleRevealH h prev s r c samples =
     (let d = DIFFICULTIES (difficulty s) in
      if status s = Lost \<or> status s = Won then Inr (h, prev)
      else
        (case cloneBoardH h prev of (h0, nxt) \<Rightarrow>
           (case (if \<not> minesPlanted s
                  then plantMinesH h0 nxt (rows d) (cols d) (mines d) r c samples
                  else Inr h0) of
              Inl e \<Rightarrow> Inl e
            | Inr h1 \<Rightarrow>
                (case objAt h1 nxt r c of
                   None \<Rightarrow> Inl TypeError
                 | Some (a, cell) \<Rightarrow>
                     if isRevealed cell \<or> isFlagged cell then Inr (h1, prev)
                     else if isMine cell then Inr (revealMinesH h1 nxt)
                     else
                       (case (if count cell = 0 then floodRevealH h1 nxt r c
                              else Inr (h1[a := cell\<lparr>isRevealed := True\<rparr>])) of
                          Inl e \<Rightarrow> Inl e
                        | Inr h2 \<Rightarrow>
                            let newlyRevealed =
                                  length (filter (\<lambda>a. isRevealed (h2 ! a) \<and> \<not> isMine (h2 ! a))
                                            (concat nxt)) in
                            if int newlyRevealed = totalSafe s then Inr (flagMinesH h2 nxt)
                            else Inr (h2, nxt))))))"

text \<open>The updater that \<open>handleFlag\<close> passes to \<open>setBoard\<close>.\<close>

definition handleFlagH ::
  "cell list \<Rightarrow> nat list list \<Rightarrow> session \<Rightarrow> int \<Rightarrow> int \<Rightarrow> error + (cell list \<times> nat list list)"
where
  "handleFlagH h prev s r c =
     (if status s = Lost \<or> status s = Won then Inr (h, prev)
      else
        (let flaggedPrev = length (filter (\<lambda>a. isFlagged (h ! a)) (concat prev));
             flagsLeftNow = int (mines (DIFFICULTIES (difficulty s))) - int flaggedPrev in
         case cloneBoardH h prev of (h0, nxt) \<Rightarrow>
           (case objAt h0 nxt r c of
              None \<Rightarrow> Inl TypeError
            | Some (a, cell) \<Rightarrow>
                if isRevealed cell then Inr (h0, prev)
                else
                  (let willFlag = \<not> isFlagged cell in
                   if willFlag \<and> flagsLeftNow = 0 then Inr (h0, prev)
                   else Inr (h0[a := cell\<lparr>isFlagged := willFlag\<rparr>], nxt)))))"

section \<open>What a call may write\<close>

text \<open>\<open>h'\<close> has the objects of \<open>h\<close> and differs from it at addresses in \<open>A\<close> only.\<close>

definition writesWithin :: "nat set \<Rightarrow> cell list \<Rightarrow> cell list \<Rightarrow> bool" where
  "writesWithin A h h' \<longleftrightarrow> length h' = length h \<and> (\<forall>a < length h. a \<notin> A \<longrightarrow> h' ! a = h ! a)"

text \<open>\<open>h'\<close> is \<open>h\<close> with new objects allocated behind it.\<close>

definition extends :: "cell list \<Rightarrow> cell list \<Rightarrow> bool" where
  "extends h h' \<longleftrightarrow> (\<exists>ys. h' = h @ ys)"

lemma writesWithin_refl: "writesWithin A h h"
  by (simp add: writesWithin_def)

lemma writesWithin_trans: "writesWithin A h h1 \<Longrightarrow> writesWithin A h1 h2 \<Longrightarrow> writesWithin A h h2"
  by (simp add: writesWithin_def)

lemma writesWithin_write:
  assumes "a \<in> A"
  shows "writesWithin A h (h[a := v])"
  unfolding writesWithin_def
proof (intro conjI allI impI)
  show "length (h[a := v]) = length h" by simp
next
  fix x assume "x < length h" "x \<notin> A"
  with assms have "a \<noteq> x" by blast
  then show "h[a := v] ! x = h ! x" by simp
qed

lemma writesWithin_objAt:
  "objAt h b r c = Some (a, cl) \<Longrightarrow> writesWithin (set (concat b)) h (h[a := v])"
  using objAt_mem[of h b r c a cl] by (intro writesWithin_write) simp

lemma extends_refl: "extends h h"
  by (simp add: extends_def)

lemma extends_trans: "extends h h1 \<Longrightarrow> extends h1 h2 \<Longrightarrow> extends h h2"
  by (auto simp: extends_def)

lemma extends_snoc: "extends h (h @ [x])"
  by (simp add: extends_def)

lemma extends_length: "extends h h' \<Longrightarrow> length h \<le> length h'"
  by (auto simp: extends_def)

lemma extends_nth: "extends h h' \<Longrightarrow> a < length h \<Longrightarrow> h' ! a = h ! a"
  by (auto simp: extends_def nth_append)

lemma plantLoopH_frame:
  "plantLoopH h b k F smp p = Inr h' \<Longrightarrow> writesWithin (set (concat b)) h h'"
proof (induction smp arbitrary: h p)
  case Nil
  then show ?case by (auto simp: writesWithin_refl split: if_splits)
next
  case (Cons s smp)
  obtain r c where s: "s = (r, c)" by (cases s)
  show ?case
  proof (cases "p < k")
    case False
    with Cons.prems show ?thesis by (simp add: s writesWithin_refl)
  next
    case True
    show ?thesis
    proof (cases "(int r, int c) \<in> F")
      case inF: True
      with True Cons.prems have "plantLoopH h b k F smp p = Inr h'" by (simp add: s)
      from Cons.IH[OF this] show ?thesis .
    next
      case notF: False
      with True Cons.prems obtain a cl where at: "objAt h b (int r) (int c) = Some (a, cl)"
        by (cases "objAt h b (int r) (int c)") (auto simp: s)
      show ?thesis
      proof (cases "isMine cl")
        case True
        with \<open>p < k\<close> notF at Cons.prems have "plantLoopH h b k F smp p = Inr h'" by (simp add: s)
        from Cons.IH[OF this] show ?thesis .
      next
        case False
        with \<open>p < k\<close> notF at Cons.prems
        have "plantLoopH (h[a := cl\<lparr>isMine := True\<rparr>]) b k F smp (p + 1) = Inr h'"
          by (simp add: s)
        from writesWithin_trans[OF writesWithin_objAt[OF at] Cons.IH[OF this]] show ?thesis .
      qed
    qed
  qed
qed

lemma countColsH_frame:
  "countColsH h b m n r cs = Inr h' \<Longrightarrow> writesWithin (set (concat b)) h h'"
proof (induction cs arbitrary: h)
  case Nil
  then show ?case by (simp add: writesWithin_refl)
next
  case (Cons c cs)
  from Cons.prems obtain a cl where at: "objAt h b (int r) (int c) = Some (a, cl)"
    by (cases "objAt h b (int r) (int c)") auto
  show ?case
  proof (cases "isMine cl")
    case True
    with at Cons.prems have "countColsH h b m n r cs = Inr h'" by simp
    from Cons.IH[OF this] show ?thesis .
  next
    case False
    with at Cons.prems obtain cnt where
      "countColsH (h[a := cl\<lparr>count := cnt\<rparr>]) b m n r cs = Inr h'"
      by (cases "countMinesH h b m n (neighbors (int r) (int c)) 0") auto
    from writesWithin_trans[OF writesWithin_objAt[OF at] Cons.IH[OF this]] show ?thesis .
  qed
qed

lemma countRowsH_frame:
  "countRowsH h b m n rs = Inr h' \<Longrightarrow> writesWithin (set (concat b)) h h'"
proof (induction rs arbitrary: h)
  case Nil
  then show ?case by (simp add: writesWithin_refl)
next
  case (Cons r rs)
  from Cons.prems obtain h1 where h1: "countColsH h b m n r [0..<n] = Inr h1"
    "countRowsH h1 b m n rs = Inr h'"
    by (cases "countColsH h b m n r [0..<n]") auto
  from writesWithin_trans[OF countColsH_frame[OF h1(1)] Cons.IH[OF h1(2)]] show ?case .
qed

lemma plantMinesH_frame:
  assumes "plantMinesH h b m n k sr sc smp = Inr h'"
  shows "writesWithin (set (concat b)) h h'"
proof -
  from assms obtain h1 where h1: "plantLoopH h b k (forbiddenSet m n sr sc) smp 0 = Inr h1"
    "countRowsH h1 b m n [0..<m] = Inr h'"
    by (auto simp: plantMinesH_def split: sum.splits)
  from writesWithin_trans[OF plantLoopH_frame[OF h1(1)] countRowsH_frame[OF h1(2)]]
  show ?thesis .
qed

lemma floodNeighborsH_frame:
  "floodNeighborsH h b m n ns q seen = Inr (h', q', seen') \<Longrightarrow> writesWithin (set (concat b)) h h'"
proof (induction ns arbitrary: h q seen)
  case Nil
  then show ?case by (simp add: writesWithin_refl)
next
  case (Cons p ns)
  obtain nr nc where p: "p = (nr, nc)" by (cases p)
  show ?case
  proof (cases "\<not> inBounds nr nc m n \<or> (nr, nc) \<in> seen")
    case True
    with Cons.prems have "floodNeighborsH h b m n ns q seen = Inr (h', q', seen')"
      by (auto simp: p split: if_splits)
    from Cons.IH[OF this] show ?thesis .
  next
    case False
    with Cons.prems obtain a cl where at: "objAt h b nr nc = Some (a, cl)"
      by (cases "objAt h b nr nc") (auto simp: p split: if_splits)
    show ?thesis
    proof (cases "\<not> isRevealed cl \<and> \<not> isFlagged cl \<and> \<not> isMine cl")
      case True
      with False at Cons.prems have
        "floodNeighborsH (h[a := cl\<lparr>isRevealed := True\<rparr>]) b m n ns
           (if count cl = 0 then q @ [(nr, nc)] else q) (insert (nr, nc) seen) = Inr (h', q', seen')"
        by (auto simp: p split: if_splits)
      from writesWithin_trans[OF writesWithin_objAt[OF at] Cons.IH[OF this]] show ?thesis .
    next
      case nope: False
      with False at Cons.prems have "floodNeighborsH h b m n ns q seen = Inr (h', q', seen')"
        by (auto simp: p split: if_splits)
      from Cons.IH[OF this] show ?thesis .
    qed
  qed
qed

lemma floodLoopH_frame:
  "floodLoopH h b m n q seen = Inr h' \<Longrightarrow> writesWithin (set (concat b)) h h'"
proof (induction h b m n q seen rule: floodLoopH.induct)
  case (1 h refs m n seen)
  then show ?case by (simp add: writesWithin_refl)
next
  case (2 h refs m n r c q seen)
  from "2.prems" obtain a cl where at: "objAt h refs r c = Some (a, cl)"
    by (cases "objAt h refs r c") auto
  note w = writesWithin_objAt[OF at, of "cl\<lparr>isRevealed := True\<rparr>"]
  show ?case
  proof (cases "count cl = 0")
    case True
    with at "2.prems" obtain h1 q1 seen1 where
      fn: "floodNeighborsH (h[a := cl\<lparr>isRevealed := True\<rparr>]) refs m n (neighbors r c) q seen
             = Inr (h1, q1, seen1)"
      and rest: "floodLoopH h1 refs m n q1 seen1 = Inr h'"
      by (cases "floodNeighborsH (h[a := cl\<lparr>isRevealed := True\<rparr>]) refs m n (neighbors r c) q seen")
         auto
    from "2.IH"(1)[OF at refl True fn refl refl rest]
    have "writesWithin (set (concat refs)) h1 h'" .
    from writesWithin_trans[OF writesWithin_trans[OF w floodNeighborsH_frame[OF fn]] this]
    show ?thesis .
  next
    case False
    with at "2.prems" have rest: "floodLoopH (h[a := cl\<lparr>isRevealed := True\<rparr>]) refs m n q seen = Inr h'"
      by simp
    from writesWithin_trans[OF w "2.IH"(2)[OF at refl False rest]] show ?thesis .
  qed
qed

lemma floodRevealH_frame:
  assumes "floodRevealH h b r c = Inr h'"
  shows "writesWithin (set (concat b)) h h'"
proof (cases b)
  case Nil
  with assms show ?thesis by (simp add: floodRevealH_def)
next
  case (Cons row0 rest)
  with assms have "floodLoopH h b (length b) (length row0) [(r, c)] {(r, c)} = Inr h'"
    by (simp add: floodRevealH_def del: floodLoopH.simps)
  then show ?thesis by (rule floodLoopH_frame)
qed

lemma cloneRowH_fresh:
  "cloneRowH h row = (h', row') \<Longrightarrow> extends h h' \<and> set row' \<subseteq> {length h..<length h'}"
proof (induction row arbitrary: h h' row')
  case Nil
  then show ?case by (simp add: extends_refl)
next
  case (Cons a as)
  from Cons.prems obtain r1 where r1: "cloneRowH (h @ [h ! a]) as = (h', r1)"
    and row': "row' = length h # r1"
    by (cases "cloneRowH (h @ [h ! a]) as") auto
  from Cons.IH[OF r1] have e: "extends (h @ [h ! a]) h'"
    and s: "set r1 \<subseteq> {length (h @ [h ! a])..<length h'}" by auto
  from extends_trans[OF extends_snoc e] have "extends h h'" .
  moreover from extends_length[OF e] s have "set row' \<subseteq> {length h..<length h'}"
    by (auto simp: row')
  ultimately show ?case by simp
qed

lemma cloneBoardH_fresh:
  "cloneBoardH h b = (h', b') \<Longrightarrow> extends h h' \<and> set (concat b') \<subseteq> {length h..<length h'}"
proof (induction b arbitrary: h h' b')
  case Nil
  then show ?case by (simp add: extends_refl)
next
  case (Cons row b)
  from Cons.prems obtain h1 row' b1 where r: "cloneRowH h row = (h1, row')"
    and b: "cloneBoardH h1 b = (h', b1)" and b': "b' = row' # b1"
    by (cases "cloneRowH h row"; cases "cloneBoardH (fst (cloneRowH h row)) b") auto
  from cloneRowH_fresh[OF r] Cons.IH[OF b]
  have e1: "extends h h1" and s1: "set row' \<subseteq> {length h..<length h1}"
    and e2: "extends h1 h'" and s2: "set (concat b1) \<subseteq> {length h1..<length h'}" by auto
  from extends_length[OF e1] extends_length[OF e2] s1 s2
  have "set (concat b') \<subseteq> {length h..<length h'}" unfolding b' by fastforce
  with extends_trans[OF e1 e2] show ?case by simp
qed

lemma mapMinesRowH_fresh:
  "mapMinesRowH f h row = (h', row') \<Longrightarrow>
   extends h h' \<and> set row' \<subseteq> set row \<union> {length h..<length h'}"
proof (induction row arbitrary: h h' row')
  case Nil
  then show ?case by (simp add: extends_refl)
next
  case (Cons a as)
  show ?case
  proof (cases "isMine (h ! a)")
    case True
    with Cons.prems obtain r1 where r1: "mapMinesRowH f (h @ [f (h ! a)]) as = (h', r1)"
      and row': "row' = length h # r1"
      by (cases "mapMinesRowH f (h @ [f (h ! a)]) as") auto
    from Cons.IH[OF r1] have e: "extends (h @ [f (h ! a)]) h'"
      and s: "set r1 \<subseteq> set as \<union> {length (h @ [f (h ! a)])..<length h'}" by auto
    from extends_length[OF e] s have "set row' \<subseteq> set (a # as) \<union> {length h..<length h'}"
      by (auto simp: row')
    with extends_trans[OF extends_snoc e] show ?thesis by simp
  next
    case False
    with Cons.prems obtain r1 where r1: "mapMinesRowH f h as = (h', r1)" and row': "row' = a # r1"
      by (cases "mapMinesRowH f h as") auto
    from Cons.IH[OF r1] show ?thesis by (auto simp: row')
  qed
qed

lemma mapMinesH_fresh:
  "mapMinesH f h b = (h', b') \<Longrightarrow>
   extends h h' \<and> set (concat b') \<subseteq> set (concat b) \<union> {length h..<length h'}"
proof (induction b arbitrary: h h' b')
  case Nil
  then show ?case by (simp add: extends_refl)
next
  case (Cons row b)
  from Cons.prems obtain h1 row' b1 where r: "mapMinesRowH f h row = (h1, row')"
    and b: "mapMinesH f h1 b = (h', b1)" and b': "b' = row' # b1"
    by (cases "mapMinesRowH f h row"; cases "mapMinesH f (fst (mapMinesRowH f h row)) b") auto
  from mapMinesRowH_fresh[OF r] Cons.IH[OF b]
  have e1: "extends h h1" and s1: "set row' \<subseteq> set row \<union> {length h..<length h1}"
    and e2: "extends h1 h'" and s2: "set (concat b1) \<subseteq> set (concat b) \<union> {length h1..<length h'}"
    by auto
  from extends_length[OF e1] extends_length[OF e2] s1 s2
  have "set (concat b') \<subseteq> set (concat (row # b)) \<union> {length h..<length h'}"
    unfolding b' by fastforce
  with extends_trans[OF e1 e2] show ?case by simp
qed

section \<open>Claim about the mutation discipline\<close>

text \<open>The board as a value: the cells its addresses point to.\<close>

definition deref :: "cell list \<Rightarrow> nat list list \<Rightarrow> cell list list" where
  "deref h refs = map (\<lambda>row. map (\<lambda>a. h ! a) row) refs"

text \<open>Every object of \<open>h\<close> is still in \<open>h'\<close>, at its address and with its fields.\<close>

definition preserves :: "cell list \<Rightarrow> cell list \<Rightarrow> bool" where
  "preserves h h' \<longleftrightarrow> (\<forall>a < length h. a < length h' \<and> h' ! a = h ! a)"

text \<open>The board \<open>refs\<close> holds only objects allocated after \<open>h\<close>.\<close>

definition builtAfter :: "cell list \<Rightarrow> cell list \<Rightarrow> nat list list \<Rightarrow> bool" where
  "builtAfter h h' refs \<longleftrightarrow> (\<forall>a \<in> set (concat refs). length h \<le> a \<and> a < length h')"

lemma preserves_deref:
  assumes "preserves h h'" "\<forall>a \<in> set (concat b). a < length h"
  shows "deref h' b = deref h b"
proof -
  have "map (\<lambda>a. h' ! a) row = map (\<lambda>a. h ! a) row" if "row \<in> set b" for row
    using that assms by (auto simp: preserves_def)
  then show ?thesis by (simp add: deref_def)
qed

lemma cow_close:
  assumes "extends h h0" "set (concat nxt) \<subseteq> {length h..<length h0}"
    and "writesWithin (set (concat nxt)) h0 h2" "extends h2 h'"
    and "set (concat res) \<subseteq> set (concat nxt) \<union> {length h2..<length h'}"
  shows "preserves h h' \<and> builtAfter h h' res"
proof -
  from assms(3) have len: "length h2 = length h0" by (simp add: writesWithin_def)
  note l0 = extends_length[OF assms(1)] and l2 = extends_length[OF assms(4)]
  have "a < length h' \<and> h' ! a = h ! a" if "a < length h" for a
  proof -
    from that l0 have a0: "a < length h0" by simp
    from that assms(2) have "a \<notin> set (concat nxt)" by auto
    with assms(3) a0 have "h2 ! a = h0 ! a" by (simp add: writesWithin_def)
    moreover from a0 len have "a < length h2" by simp
    ultimately show ?thesis
      using extends_nth[OF assms(4), of a] extends_nth[OF assms(1) that] l2 by simp
  qed
  moreover have "length h \<le> a \<and> a < length h'" if "a \<in> set (concat res)" for a
    using that assms(2,5) l0 l2 len by fastforce
  ultimately show ?thesis by (simp add: preserves_def builtAfter_def)
qed

lemma handleRevealH_cow:
  assumes "handleRevealH h prev s r c smp = Inr (h', res)"
  shows "preserves h h' \<and> (res = prev \<or> builtAfter h h' res)"
proof (cases "status s = Lost \<or> status s = Won")
  case True
  with assms show ?thesis by (simp add: handleRevealH_def preserves_def)
next
  case False
  let ?d = "DIFFICULTIES (difficulty s)"
  obtain h0 nxt where cl: "cloneBoardH h prev = (h0, nxt)" by (cases "cloneBoardH h prev")
  note fr = cloneBoardH_fresh[OF cl]
  from assms False cl obtain h1 where
    pl: "(if \<not> minesPlanted s then plantMinesH h0 nxt (rows ?d) (cols ?d) (mines ?d) r c smp
          else Inr h0) = Inr h1"
    by (cases "if \<not> minesPlanted s then plantMinesH h0 nxt (rows ?d) (cols ?d) (mines ?d) r c smp
               else Inr h0") (simp_all add: handleRevealH_def Let_def)
  have w1: "writesWithin (set (concat nxt)) h0 h1"
    using pl plantMinesH_frame[of h0 nxt "rows ?d" "cols ?d" "mines ?d" r c smp h1]
    by (auto simp: writesWithin_refl split: if_splits)
  from assms False cl pl obtain a cell where at: "objAt h1 nxt r c = Some (a, cell)"
    by (cases "objAt h1 nxt r c") (auto simp: handleRevealH_def Let_def)
  show ?thesis
  proof (cases "isRevealed cell \<or> isFlagged cell")
    case True
    with assms False cl pl at have "h' = h1" "res = prev"
      by (simp_all add: handleRevealH_def Let_def)
    with cow_close[OF fr[THEN conjunct1] fr[THEN conjunct2] w1 extends_refl, of nxt]
    show ?thesis by simp
  next
    case acc: False
    show ?thesis
    proof (cases "isMine cell")
      case True
      with assms False cl pl at acc have "revealMinesH h1 nxt = (h', res)"
        by (simp add: handleRevealH_def Let_def)
      from mapMinesH_fresh[OF this[unfolded revealMinesH_def]]
           cow_close[OF fr[THEN conjunct1] fr[THEN conjunct2] w1, of h' res]
      show ?thesis by simp
    next
      case safe: False
      from assms False cl pl at acc safe obtain h2 where
        op: "(if count cell = 0 then floodRevealH h1 nxt r c
              else Inr (h1[a := cell\<lparr>isRevealed := True\<rparr>])) = Inr h2"
        by (cases "if count cell = 0 then floodRevealH h1 nxt r c
                   else Inr (h1[a := cell\<lparr>isRevealed := True\<rparr>])")
           (simp_all add: handleRevealH_def Let_def)
      have "writesWithin (set (concat nxt)) h1 h2"
        using op floodRevealH_frame[of h1 nxt r c h2]
              writesWithin_objAt[OF at, of "cell\<lparr>isRevealed := True\<rparr>"]
        by (auto split: if_splits)
      from writesWithin_trans[OF w1 this] have w2: "writesWithin (set (concat nxt)) h0 h2" .
      show ?thesis
      proof (cases "int (length (filter (\<lambda>a. isRevealed (h2 ! a) \<and> \<not> isMine (h2 ! a))
                                   (concat nxt))) = totalSafe s")
        case True
        with assms False cl pl at acc safe op have "flagMinesH h2 nxt = (h', res)"
          by (simp add: handleRevealH_def Let_def)
        from mapMinesH_fresh[OF this[unfolded flagMinesH_def]]
             cow_close[OF fr[THEN conjunct1] fr[THEN conjunct2] w2, of h' res]
        show ?thesis by simp
      next
        case nowin: False
        with assms False cl pl at acc safe op have "h' = h2" "res = nxt"
          by (simp_all add: handleRevealH_def Let_def)
        with cow_close[OF fr[THEN conjunct1] fr[THEN conjunct2] w2 extends_refl, of nxt]
        show ?thesis by simp
      qed
    qed
  qed
qed

lemma handleFlagH_cow:
  assumes "handleFlagH h prev s r c = Inr (h', res)"
  shows "preserves h h' \<and> (res = prev \<or> builtAfter h h' res)"
proof (cases "status s = Lost \<or> status s = Won")
  case True
  with assms show ?thesis by (simp add: handleFlagH_def preserves_def)
next
  case False
  obtain h0 nxt where cl: "cloneBoardH h prev = (h0, nxt)" by (cases "cloneBoardH h prev")
  note fr = cloneBoardH_fresh[OF cl]
  from assms False cl obtain a cell where at: "objAt h0 nxt r c = Some (a, cell)"
    by (cases "objAt h0 nxt r c") (auto simp: handleFlagH_def Let_def)
  note base = cow_close[OF fr[THEN conjunct1] fr[THEN conjunct2] _ extends_refl, of _ nxt]
  show ?thesis
  proof (cases "isRevealed cell \<or> (\<not> isFlagged cell \<and>
      int (mines (DIFFICULTIES (difficulty s)))
        - int (length (filter (\<lambda>a. isFlagged (h ! a)) (concat prev))) = 0)")
    case True
    with assms False cl at have "h' = h0" "res = prev"
      by (auto simp: handleFlagH_def Let_def split: if_splits)
    with base[OF writesWithin_refl] show ?thesis by simp
  next
    case acc: False
    with assms False cl at have "h' = h0[a := cell\<lparr>isFlagged := \<not> isFlagged cell\<rparr>]" "res = nxt"
      by (auto simp: handleFlagH_def Let_def split: if_splits)
    with base[OF writesWithin_objAt[OF at]] show ?thesis by simp
  qed
qed

text \<open>The store and the board of a new Beginner game: 81 cell objects, row by row; and the
  store of the game after its first click.\<close>

definition startStore :: "cell list" where
  "startStore = concat (makeEmptyBoard 9 9)"

definition startRefs :: "nat list list" where
  "startRefs = map (\<lambda>i. map (\<lambda>j. i * 9 + j) [0..<9]) [0..<9]"

definition playingStore :: "cell list" where
  "playingStore = concat (board beginnerPlaying)"

text \<open>
  Claim C9. Whatever store, board \<open>prev\<close>, session and coordinate: when the updater of
  \<open>handleReveal\<close> or of \<open>handleFlag\<close> returns, every object that was in the store before
  the call is in it unchanged, so the cells of \<open>prev\<close> have the values they had; and the
  board returned is either \<open>prev\<close> itself or is built only of objects allocated during the
  call, which are the only ones that were written.
\<close>

theorem copy_on_write:
  "(handleRevealH h prev s r c smp = Inr (h', res) \<longrightarrow>
      preserves h h' \<and> (res = prev \<or> builtAfter h h' res) \<and>
      ((\<forall>a \<in> set (concat prev). a < length h) \<longrightarrow> deref h' prev = deref h prev)) \<and>
   (handleFlagH h prev s r c = Inr (h', res) \<longrightarrow>
      preserves h h' \<and> (res = prev \<or> builtAfter h h' res) \<and>
      ((\<forall>a \<in> set (concat prev). a < length h) \<longrightarrow> deref h' prev = deref h prev))"
proof (intro conjI impI)
  assume "handleRevealH h prev s r c smp = Inr (h', res)"
  from handleRevealH_cow[OF this]
  show "preserves h h'" "res = prev \<or> builtAfter h h' res" by simp_all
  then show "deref h' prev = deref h prev" if "\<forall>a \<in> set (concat prev). a < length h"
    using that by (intro preserves_deref)
next
  assume "handleFlagH h prev s r c = Inr (h', res)"
  from handleFlagH_cow[OF this]
  show "preserves h h'" "res = prev \<or> builtAfter h h' res" by simp_all
  then show "deref h' prev = deref h prev" if "\<forall>a \<in> set (concat prev). a < length h"
    using that by (intro preserves_deref)
qed

theorem copy_on_write_witness:
  "list_all (\<lambda>a. a < length startStore) (concat startRefs) \<and>
   list_all (\<lambda>a. a < length playingStore) (concat startRefs) \<and>
   deref startStore startRefs = board (newSession Beginner) \<and>
   deref playingStore startRefs = board beginnerPlaying \<and>
   (\<exists>h' res. handleRevealH playingStore startRefs beginnerPlaying 1 2 [] = Inr (h', res) \<and>
      preserves playingStore h' \<and> builtAfter playingStore h' res \<and>
      deref h' startRefs = deref playingStore startRefs \<and>
      deref h' res = board (afterReveal beginnerPlaying 1 2 [])) \<and>
   (\<exists>h' res. handleFlagH startStore startRefs (newSession Beginner) 0 0 = Inr (h', res) \<and>
      preserves startStore h' \<and> builtAfter startStore h' res \<and>
      deref h' startRefs = deref startStore startRefs \<and>
      deref h' res = board flaggedFresh)"
proof -
  let ?R = "handleRevealH playingStore startRefs beginnerPlaying 1 2 []"
  let ?F = "handleFlagH startStore startRefs (newSession Beginner) 0 0"
  have v: "\<forall>a \<in> set (concat startRefs). a < length startStore" by code_simp
  have d: "deref startStore startRefs = board (newSession Beginner)" by code_simp
  have vp: "\<forall>a \<in> set (concat startRefs). a < length playingStore" by code_simp
  have dp: "deref playingStore startRefs = board beginnerPlaying" by code_simp
  have "case ?R of Inl e \<Rightarrow> False
        | Inr (h', res) \<Rightarrow> res \<noteq> startRefs \<and>
            deref h' res = board (afterReveal beginnerPlaying 1 2 [])" by code_simp
  then obtain h1 res1 where r: "?R = Inr (h1, res1)" and n1: "res1 \<noteq> startRefs"
    and b1: "deref h1 res1 = board (afterReveal beginnerPlaying 1 2 [])"
    by (cases ?R) auto
  have "case ?F of Inl e \<Rightarrow> False
        | Inr (h', res) \<Rightarrow> res \<noteq> startRefs \<and> deref h' res = board flaggedFresh" by code_simp
  then obtain h2 res2 where f: "?F = Inr (h2, res2)" and n2: "res2 \<noteq> startRefs"
    and b2: "deref h2 res2 = board flaggedFresh"
    by (cases ?F) auto
  from copy_on_write[of playingStore startRefs beginnerPlaying 1 2 "[]" h1 res1] r vp n1
  have "preserves playingStore h1 \<and> builtAfter playingStore h1 res1 \<and>
        deref h1 startRefs = deref playingStore startRefs" by simp
  moreover
  from copy_on_write[of startStore startRefs "newSession Beginner" 0 0 _ h2 res2] f v n2
  have "preserves startStore h2 \<and> builtAfter startStore h2 res2 \<and>
        deref h2 startRefs = deref startStore startRefs" by simp
  moreover have "list_all (\<lambda>a. a < length startStore) (concat startRefs)"
    "list_all (\<lambda>a. a < length playingStore) (concat startRefs)"
    using v vp unfolding list_all_iff by blast+
  ultimately show ?thesis using d dp r f b1 b2 by blast
qed

section \<open>The store model computes what the value model computes\<close>

text \<open>A board on the store is well formed when its addresses are allocated and no object
  occurs in it twice, as in a board made by \<open>cloneBoard\<close>.\<close>

definition wfRefs :: "cell list \<Rightarrow> nat list list \<Rightarrow> bool" where
  "wfRefs h b \<longleftrightarrow> distinct (concat b) \<and> (\<forall>a \<in> set (concat b). a < length h)"

lemma nth_mem_concat: "i < length b \<Longrightarrow> j < length (b ! i) \<Longrightarrow> b ! i ! j \<in> set (concat b)"
proof -
  assume "i < length b" "j < length (b ! i)"
  then have "b ! i \<in> set b" "b ! i ! j \<in> set (b ! i)" by simp_all
  then show ?thesis by auto
qed

lemma cellAt_deref: "cellAt (deref h b) r c = map_option (\<lambda>a. h ! a) (refAt b r c)"
  by (auto simp: cellAt_def refAt_def deref_def)

lemma objAt_wf:
  assumes "wfRefs h b"
  shows "objAt h b r c = map_option (\<lambda>a. (a, h ! a)) (refAt b r c)"
proof (cases "refAt b r c")
  case None
  then show ?thesis by (simp add: objAt_def)
next
  case (Some a)
  from refAt_mem[OF Some] assms have "a < length h" unfolding wfRefs_def by blast
  with Some show ?thesis by (simp add: objAt_def)
qed

lemma objAt_cellAt:
  assumes "wfRefs h b"
  shows "map_option snd (objAt h b r c) = cellAt (deref h b) r c"
  by (simp add: objAt_wf[OF assms] cellAt_deref option.map_comp comp_def)

lemma distinct_concat_nth:
  "distinct (concat b) \<Longrightarrow> i < length b \<Longrightarrow> j < length (b ! i) \<Longrightarrow>
   i' < length b \<Longrightarrow> j' < length (b ! i') \<Longrightarrow> b ! i ! j = b ! i' ! j' \<Longrightarrow> i = i' \<and> j = j'"
proof (induction b arbitrary: i i')
  case Nil
  then show ?case by simp
next
  case (Cons row b)
  from Cons.prems(1) have d: "distinct row" "distinct (concat b)"
    "set row \<inter> set (concat b) = {}" by auto
  show ?case
  proof (cases i)
    case i0: 0
    show ?thesis
    proof (cases i')
      case 0
      with i0 Cons.prems d(1) show ?thesis by (simp add: nth_eq_iff_index_eq)
    next
      case (Suc k')
      with i0 Cons.prems have k: "j < length row" "k' < length b" "j' < length (b ! k')"
        and eq: "row ! j = b ! k' ! j'" by simp_all
      from k(1) have "row ! j \<in> set row" by simp
      moreover from k(2,3) have "b ! k' ! j' \<in> set (concat b)" by (rule nth_mem_concat)
      ultimately show ?thesis using eq d(3) by (metis disjoint_iff)
    qed
  next
    case (Suc k)
    show ?thesis
    proof (cases i')
      case 0
      with Suc Cons.prems have k: "j' < length row" "k < length b" "j < length (b ! k)"
        and eq: "b ! k ! j = row ! j'" by simp_all
      from k(1) have "row ! j' \<in> set row" by simp
      moreover from k(2,3) have "b ! k ! j \<in> set (concat b)" by (rule nth_mem_concat)
      ultimately show ?thesis using eq d(3) by (metis disjoint_iff)
    next
      case i'S: (Suc k')
      with Suc Cons.prems Cons.IH[OF d(2), of k k'] show ?thesis by simp
    qed
  qed
qed

lemma deref_write:
  assumes "wfRefs h b" "refAt b r c = Some a"
  shows "deref (h[a := v]) b = setCell (deref h b) r c v"
proof -
  from assms(2) have r: "nat r < length b" and c: "nat c < length (b ! nat r)"
    and a: "a = b ! nat r ! nat c" by (auto simp: refAt_def split: if_splits)
  from assms(1) have dist: "distinct (concat b)" and al: "\<And>x. x \<in> set (concat b) \<Longrightarrow> x < length h"
    unfolding wfRefs_def by blast+
  show ?thesis
  proof (rule nth_equalityI)
    show "length (deref (h[a := v]) b) = length (setCell (deref h b) r c v)"
      by (simp add: deref_def setCell_def)
  next
    fix i assume "i < length (deref (h[a := v]) b)"
    then have i: "i < length b" by (simp add: deref_def)
    show "deref (h[a := v]) b ! i = setCell (deref h b) r c v ! i"
    proof (rule nth_equalityI)
      show "length (deref (h[a := v]) b ! i) = length (setCell (deref h b) r c v ! i)"
        using i r by (simp add: deref_def setCell_def nth_list_update)
    next
      fix j assume "j < length (deref (h[a := v]) b ! i)"
      with i have j: "j < length (b ! i)" by (simp add: deref_def)
      from i j have mem: "b ! i ! j \<in> set (concat b)" by (rule nth_mem_concat)
      have "b ! i ! j = a \<longleftrightarrow> i = nat r \<and> j = nat c"
        using distinct_concat_nth[OF dist i j r c] a by auto
      then show "deref (h[a := v]) b ! i ! j = setCell (deref h b) r c v ! i ! j"
        using i j r c al[OF mem] a
        by (auto simp: deref_def setCell_def nth_list_update)
    qed
  qed
qed

lemma wfRefs_write: "wfRefs h b \<Longrightarrow> wfRefs (h[a := v]) b"
  by (simp add: wfRefs_def)

lemma wfRefs_writesWithin: "writesWithin A h h' \<Longrightarrow> wfRefs h b \<Longrightarrow> wfRefs h' b"
  by (simp add: wfRefs_def writesWithin_def)

lemma objAt_SomeD:
  assumes "wfRefs h b" "objAt h b r c = Some (a, cl)"
  shows "refAt b r c = Some a" "cellAt (deref h b) r c = Some cl"
    "deref (h[a := v]) b = setCell (deref h b) r c v"
proof -
  from assms show ra: "refAt b r c = Some a" and "cellAt (deref h b) r c = Some cl"
    by (auto simp: objAt_wf cellAt_deref)
  from deref_write[OF assms(1) ra] show "deref (h[a := v]) b = setCell (deref h b) r c v" .
qed

lemma objAt_NoneD:
  assumes "wfRefs h b" "objAt h b r c = None"
  shows "cellAt (deref h b) r c = None"
  using assms by (auto simp: objAt_wf cellAt_deref)

lemma length_deref [simp]: "length (deref h b) = length b"
  by (simp add: deref_def)

lemma plantLoopH_sim:
  "wfRefs h b \<Longrightarrow>
   map_sum id (\<lambda>h'. deref h' b) (plantLoopH h b k F smp p) = plantLoop (deref h b) k F smp p"
proof (induction smp arbitrary: h p)
  case Nil
  then show ?case by simp
next
  case (Cons s smp)
  obtain r c where s: "s = (r, c)" by (cases s)
  show ?case
  proof (cases "objAt h b (int r) (int c)")
    case None
    from objAt_NoneD[OF Cons.prems None] None Cons.IH[OF Cons.prems] show ?thesis
      by (simp add: s)
  next
    case (Some ac)
    obtain a cl where ac: "ac = (a, cl)" by (cases ac)
    note d = objAt_SomeD[OF Cons.prems Some[unfolded ac]]
    from Cons.IH[OF Cons.prems] Cons.IH[OF wfRefs_write[OF Cons.prems]] Some d(2)
    show ?thesis by (simp add: s ac d(3))
  qed
qed

lemma countMinesH_sim:
  "wfRefs h b \<Longrightarrow> countMinesH h b m n ns cnt = countMines (deref h b) m n ns cnt"
proof (induction ns arbitrary: cnt)
  case Nil
  then show ?case by simp
next
  case (Cons p ns)
  obtain nr nc where p: "p = (nr, nc)" by (cases p)
  show ?case
  proof (cases "objAt h b nr nc")
    case None
    from objAt_NoneD[OF Cons.prems None] None Cons.IH[OF Cons.prems] show ?thesis
      by (simp add: p)
  next
    case (Some ac)
    obtain a cl where ac: "ac = (a, cl)" by (cases ac)
    note d = objAt_SomeD[OF Cons.prems Some[unfolded ac]]
    from Cons.IH[OF Cons.prems] Some d(2) show ?thesis by (simp add: p ac)
  qed
qed

lemma countColsH_sim:
  "wfRefs h b \<Longrightarrow>
   map_sum id (\<lambda>h'. deref h' b) (countColsH h b m n r cs) = countCols (deref h b) m n r cs"
proof (induction cs arbitrary: h)
  case Nil
  then show ?case by simp
next
  case (Cons c cs)
  show ?case
  proof (cases "objAt h b (int r) (int c)")
    case None
    from objAt_NoneD[OF Cons.prems None] None show ?thesis by simp
  next
    case (Some ac)
    obtain a cl where ac: "ac = (a, cl)" by (cases ac)
    note d = objAt_SomeD[OF Cons.prems Some[unfolded ac]]
    from Cons.IH[OF Cons.prems] Cons.IH[OF wfRefs_write[OF Cons.prems]] Some d(2)
    show ?thesis
      by (simp add: ac d(3) countMinesH_sim[OF Cons.prems] split: sum.splits)
  qed
qed

lemma countRowsH_sim:
  "wfRefs h b \<Longrightarrow>
   map_sum id (\<lambda>h'. deref h' b) (countRowsH h b m n rs) = countRows (deref h b) m n rs"
proof (induction rs arbitrary: h)
  case Nil
  then show ?case by simp
next
  case (Cons r rs)
  show ?case
  proof (cases "countColsH h b m n r [0..<n]")
    case (Inl e)
    with countColsH_sim[OF Cons.prems, of m n r "[0..<n]", symmetric]
    have "countCols (deref h b) m n r [0..<n] = Inl e" by simp
    with Inl show ?thesis by simp
  next
    case (Inr h1)
    from wfRefs_writesWithin[OF countColsH_frame[OF Inr] Cons.prems] have "wfRefs h1 b" .
    moreover from Inr countColsH_sim[OF Cons.prems, of m n r "[0..<n]", symmetric]
    have "countCols (deref h b) m n r [0..<n] = Inr (deref h1 b)" by simp
    ultimately show ?thesis using Cons.IH[of h1] Inr by simp
  qed
qed

lemma plantMinesH_sim:
  assumes "wfRefs h b"
  shows "map_sum id (\<lambda>h'. deref h' b) (plantMinesH h b m n k sr sc smp)
           = plantMines (deref h b) m n k sr sc smp"
proof (cases "plantLoopH h b k (forbiddenSet m n sr sc) smp 0")
  case (Inl e)
  with plantLoopH_sim[OF assms, of k "forbiddenSet m n sr sc" smp 0, symmetric]
  have "plantLoop (deref h b) k (forbiddenSet m n sr sc) smp 0 = Inl e" by simp
  with Inl show ?thesis by (simp add: plantMinesH_def plantMines_def)
next
  case (Inr h1)
  from wfRefs_writesWithin[OF plantLoopH_frame[OF Inr] assms] have "wfRefs h1 b" .
  moreover from Inr plantLoopH_sim[OF assms, of k "forbiddenSet m n sr sc" smp 0, symmetric]
  have "plantLoop (deref h b) k (forbiddenSet m n sr sc) smp 0 = Inr (deref h1 b)" by simp
  ultimately show ?thesis using countRowsH_sim[of h1 b m n "[0..<m]"] Inr
    by (simp add: plantMinesH_def plantMines_def)
qed

lemma floodNeighborsH_sim:
  "wfRefs h b \<Longrightarrow>
   map_sum id (\<lambda>(h', q', seen'). (deref h' b, q', seen')) (floodNeighborsH h b m n ns q seen)
     = floodNeighbors (deref h b) m n ns q seen"
proof (induction ns arbitrary: h q seen)
  case Nil
  then show ?case by simp
next
  case (Cons p ns)
  obtain nr nc where p: "p = (nr, nc)" by (cases p)
  show ?case
  proof (cases "objAt h b nr nc")
    case None
    from objAt_NoneD[OF Cons.prems None] None Cons.IH[OF Cons.prems] show ?thesis
      by (simp add: p)
  next
    case (Some ac)
    obtain a cl where ac: "ac = (a, cl)" by (cases ac)
    note d = objAt_SomeD[OF Cons.prems Some[unfolded ac]]
    from Cons.IH[OF Cons.prems] Cons.IH[OF wfRefs_write[OF Cons.prems]] Some d(2)
    show ?thesis by (simp add: p ac d(3))
  qed
qed

lemma floodLoopH_sim:
  "wfRefs h b \<Longrightarrow>
   map_sum id (\<lambda>h'. deref h' b) (floodLoopH h b m n q seen) = floodLoop (deref h b) m n q seen"
proof (induction h b m n q seen rule: floodLoopH.induct)
  case (1 h refs m n seen)
  then show ?case by simp
next
  case (2 h refs m n r c q seen)
  note wf = "2.prems"
  show ?case
  proof (cases "objAt h refs r c")
    case None
    from objAt_NoneD[OF wf None] None show ?thesis by simp
  next
    case (Some ac)
    obtain a cl where ac: "ac = (a, cl)" by (cases ac)
    note at = Some[unfolded ac]
    note d = objAt_SomeD(1,2)[OF wf at] objAt_SomeD(3)[OF wf at, of "cl\<lparr>isRevealed := True\<rparr>"]
    let ?h = "h[a := cl\<lparr>isRevealed := True\<rparr>]"
    have wf1: "wfRefs ?h refs" by (rule wfRefs_write[OF wf])
    show ?thesis
    proof (cases "count cl = 0")
      case False
      from "2.IH"(2)[OF at refl False wf1] at d(2) False show ?thesis
        by (simp add: d(3))
    next
      case True
      show ?thesis
      proof (cases "floodNeighborsH ?h refs m n (neighbors r c) q seen")
        case (Inl e)
        with floodNeighborsH_sim[OF wf1, of m n "neighbors r c" q seen, symmetric]
        have "floodNeighbors (deref ?h refs) m n (neighbors r c) q seen = Inl e" by simp
        with Inl at d(2) True show ?thesis by (simp add: d(3)[symmetric])
      next
        case (Inr res)
        obtain h1 q1 seen1 where res: "res = (h1, q1, seen1)" by (cases res)
        note fn = Inr[unfolded res]
        from wfRefs_writesWithin[OF floodNeighborsH_frame[OF fn] wf1] have wf2: "wfRefs h1 refs" .
        from fn floodNeighborsH_sim[OF wf1, of m n "neighbors r c" q seen, symmetric]
        have "floodNeighbors (deref ?h refs) m n (neighbors r c) q seen
                = Inr (deref h1 refs, q1, seen1)" by simp
        with "2.IH"(1)[OF at refl True fn refl refl wf2] fn at d(2) True
        show ?thesis by (simp add: d(3)[symmetric])
      qed
    qed
  qed
qed

lemma floodRevealH_sim:
  assumes "wfRefs h b"
  shows "map_sum id (\<lambda>h'. deref h' b) (floodRevealH h b r c) = floodReveal (deref h b) r c"
proof (cases b)
  case Nil
  then show ?thesis by (simp add: floodRevealH_def floodReveal_def deref_def)
next
  case (Cons row0 rest)
  then have "deref h b = map (\<lambda>a. h ! a) row0 # deref h rest" by (simp add: deref_def)
  with floodLoopH_sim[OF assms, of "length b" "length row0" "[(r, c)]" "{(r, c)}"] Cons
  show ?thesis
    by (simp add: floodRevealH_def floodReveal_def del: floodLoopH.simps floodLoop.simps)
qed

lemma upt_split: "i \<le> j \<Longrightarrow> j \<le> k \<Longrightarrow> [i..<j] @ [j..<k] = [i..<k]"
proof -
  assume a: "i \<le> j" "j \<le> (k::nat)"
  then obtain d where "k = j + d" using le_iff_add by blast
  with upt_add_eq_append[OF a(1), of d] show ?thesis by simp
qed

lemma map_nth_append_old:
  "\<forall>a \<in> set as. a < length h \<Longrightarrow> map (\<lambda>a. (h @ ys) ! a) as = map (\<lambda>a. h ! a) as"
  by (simp add: nth_append)

lemma cloneRowH_closed:
  "\<forall>a \<in> set row. a < length h \<Longrightarrow>
   cloneRowH h row = (h @ map (\<lambda>a. h ! a) row, [length h..<length h + length row])"
proof (induction row arbitrary: h)
  case Nil
  then show ?case by simp
next
  case (Cons a as)
  then have "\<forall>x \<in> set as. x < length (h @ [h ! a])" by auto
  from Cons.IH[OF this] Cons.prems map_nth_append_old[of as h "[h ! a]"]
  show ?case by (simp add: upt_conv_Cons del: upt_Suc)
qed

lemma map_nth_fresh: "map (\<lambda>a. (h @ xs @ ys) ! a) [length h..<length h + length xs] = xs"
proof (rule nth_equalityI)
  show "length (map (\<lambda>a. (h @ xs @ ys) ! a) [length h..<length h + length xs]) = length xs"
    by simp
next
  fix i assume "i < length (map (\<lambda>a. (h @ xs @ ys) ! a) [length h..<length h + length xs])"
  then have "i < length xs" by simp
  then show "map (\<lambda>a. (h @ xs @ ys) ! a) [length h..<length h + length xs] ! i = xs ! i"
    by (simp add: nth_append)
qed

text \<open>The clone: new objects behind the store, one per cell and in the order of the
  board, each equal to the cell it copies.\<close>

lemma cloneBoardH_closed:
  "\<forall>a \<in> set (concat b). a < length h \<Longrightarrow> cloneBoardH h b = (h', b') \<Longrightarrow>
   h' = h @ map (\<lambda>a. h ! a) (concat b) \<and> concat b' = [length h..<length h'] \<and>
   deref h' b' = deref h b"
proof (induction b arbitrary: h h' b')
  case Nil
  then show ?case by (simp add: deref_def)
next
  case (Cons row b)
  from Cons.prems(1) have vr: "\<forall>a \<in> set row. a < length h"
    and vb: "\<forall>a \<in> set (concat b). a < length h" by auto
  let ?h1 = "h @ map (\<lambda>a. h ! a) row"
  let ?row' = "[length h..<length h + length row]"
  from cloneRowH_closed[OF vr] Cons.prems(2) obtain b1 where
    b1: "cloneBoardH ?h1 b = (h', b1)" and b': "b' = ?row' # b1"
    by (cases "cloneBoardH ?h1 b") auto
  have vb1: "\<forall>a \<in> set (concat b). a < length ?h1"
  proof
    fix a assume "a \<in> set (concat b)"
    with vb have "a < length h" by blast
    then show "a < length ?h1" by simp
  qed
  from Cons.IH[OF vb1 b1] have h': "h' = ?h1 @ map (\<lambda>a. ?h1 ! a) (concat b)"
    and cb: "concat b1 = [length ?h1..<length h']" and db: "deref h' b1 = deref ?h1 b" by auto
  have old: "map (\<lambda>a. ?h1 ! a) (concat b) = map (\<lambda>a. h ! a) (concat b)"
    by (rule map_nth_append_old[OF vb])
  have h'2: "h' = h @ map (\<lambda>a. h ! a) (concat (row # b))" using h' old by simp
  have "length h + length row \<le> length h'" using h' by simp
  then have cc: "concat b' = [length h..<length h']"
    using cb upt_split[of "length h" "length h + length row" "length h'"] by (simp add: b')
  have "deref ?h1 b = deref h b"
  proof -
    have "map (\<lambda>a. ?h1 ! a) r = map (\<lambda>a. h ! a) r" if "r \<in> set b" for r
      using that vb by (intro map_nth_append_old) auto
    then show ?thesis by (simp add: deref_def)
  qed
  moreover have "map (\<lambda>a. h' ! a) ?row' = map (\<lambda>a. h ! a) row"
    using map_nth_fresh[of h "map (\<lambda>a. h ! a) row" "map (\<lambda>a. ?h1 ! a) (concat b)"]
    by (simp add: h')
  ultimately have "deref h' b' = deref h (row # b)"
    using db by (simp add: deref_def b')
  with h'2 cc show ?case by simp
qed

lemma cloneBoardH_wf:
  assumes "\<forall>a \<in> set (concat b). a < length h" "cloneBoardH h b = (h', b')"
  shows "wfRefs h' b'" "deref h' b' = deref h b"
proof -
  from cloneBoardH_closed[OF assms] have c: "concat b' = [length h..<length h']"
    and d: "deref h' b' = deref h b" by blast+
  show "wfRefs h' b'" unfolding wfRefs_def c by simp
  show "deref h' b' = deref h b" by (rule d)
qed

lemma mapMinesRowH_sim:
  "\<forall>a \<in> set row. a < length h \<Longrightarrow> mapMinesRowH f h row = (h', row') \<Longrightarrow>
   extends h h' \<and>
   map (\<lambda>a. h' ! a) row' = map (\<lambda>a. if isMine (h ! a) then f (h ! a) else h ! a) row"
proof (induction row arbitrary: h h' row')
  case Nil
  then show ?case by (simp add: extends_refl)
next
  case (Cons a as)
  from Cons.prems(1) have a: "a < length h" and vas: "\<forall>x \<in> set as. x < length h" by auto
  show ?case
  proof (cases "isMine (h ! a)")
    case True
    let ?h1 = "h @ [f (h ! a)]"
    from True Cons.prems(2) obtain r1 where r1: "mapMinesRowH f ?h1 as = (h', r1)"
      and row': "row' = length h # r1"
      by (cases "mapMinesRowH f ?h1 as") auto
    from vas have "\<forall>x \<in> set as. x < length ?h1" by auto
    from Cons.IH[OF this r1] have e: "extends ?h1 h'"
      and m: "map (\<lambda>a. h' ! a) r1
               = map (\<lambda>a. if isMine (?h1 ! a) then f (?h1 ! a) else ?h1 ! a) as" by auto
    have "map (\<lambda>a. if isMine (?h1 ! a) then f (?h1 ! a) else ?h1 ! a) as
          = map (\<lambda>a. if isMine (h ! a) then f (h ! a) else h ! a) as"
      using vas by (intro map_cong) (auto simp: nth_append)
    moreover have "h' ! length h = f (h ! a)" using extends_nth[OF e, of "length h"] by simp
    ultimately show ?thesis
      using True m extends_trans[OF extends_snoc e] by (simp add: row')
  next
    case False
    with Cons.prems(2) obtain r1 where r1: "mapMinesRowH f h as = (h', r1)" and row': "row' = a # r1"
      by (cases "mapMinesRowH f h as") auto
    from Cons.IH[OF vas r1] extends_nth[of h h' a] a False show ?thesis by (simp add: row')
  qed
qed

lemma mapMinesH_sim:
  "\<forall>a \<in> set (concat b). a < length h \<Longrightarrow> mapMinesH f h b = (h', b') \<Longrightarrow>
   extends h h' \<and> deref h' b' = map (map (\<lambda>x. if isMine x then f x else x)) (deref h b)"
proof (induction b arbitrary: h h' b')
  case Nil
  then show ?case by (simp add: extends_refl deref_def)
next
  case (Cons row b)
  from Cons.prems(1) have vr: "\<forall>a \<in> set row. a < length h"
    and vb: "\<forall>a \<in> set (concat b). a < length h" by auto
  from Cons.prems(2) obtain h1 row' b1 where r: "mapMinesRowH f h row = (h1, row')"
    and b: "mapMinesH f h1 b = (h', b1)" and b': "b' = row' # b1"
    by (cases "mapMinesRowH f h row"; cases "mapMinesH f (fst (mapMinesRowH f h row)) b") auto
  from mapMinesRowH_sim[OF vr r] have e1: "extends h h1"
    and m1: "map (\<lambda>a. h1 ! a) row' = map (\<lambda>a. if isMine (h ! a) then f (h ! a) else h ! a) row"
    by auto
  from vb extends_length[OF e1] have vb1: "\<forall>a \<in> set (concat b). a < length h1" by fastforce
  from Cons.IH[OF vb1 b] have e2: "extends h1 h'"
    and m2: "deref h' b1 = map (map (\<lambda>x. if isMine x then f x else x)) (deref h1 b)" by auto
  have "deref h1 b = deref h b"
  proof -
    have "map (\<lambda>a. h1 ! a) r = map (\<lambda>a. h ! a) r" if "r \<in> set b" for r
      using that vb extends_nth[OF e1] by (intro map_cong) auto
    then show ?thesis by (simp add: deref_def)
  qed
  moreover have "map (\<lambda>a. h' ! a) row' = map (\<lambda>a. h1 ! a) row'"
  proof -
    from mapMinesRowH_fresh[OF r] vr extends_length[OF e1]
    have "\<forall>a \<in> set row'. a < length h1" by fastforce
    then show ?thesis using extends_nth[OF e2] by (intro map_cong) auto
  qed
  ultimately have "deref h' b' = map (map (\<lambda>x. if isMine x then f x else x)) (deref h (row # b))"
    using m1 m2 by (simp add: deref_def b' comp_def)
  with extends_trans[OF e1 e2] show ?case by simp
qed

lemma tally_deref:
  "length (filter (\<lambda>a. P (h ! a)) (concat b)) = length (filter P (concat (deref h b)))"
proof -
  have "concat (deref h b) = map (\<lambda>a. h ! a) (concat b)"
    by (simp add: deref_def map_concat)
  then show ?thesis by (simp add: filter_map comp_def)
qed

lemma wfRefs_alloc: "wfRefs h b \<Longrightarrow> \<forall>a \<in> set (concat b). a < length h"
  unfolding wfRefs_def by blast

lemma revealMinesH_sim:
  assumes "wfRefs h b" "revealMinesH h b = (h', res)"
  shows "deref h' res = revealMines (deref h b)"
  using mapMinesH_sim[OF wfRefs_alloc[OF assms(1)] assms(2)[unfolded revealMinesH_def]]
  by (simp add: revealMines_def)

lemma flagMinesH_sim:
  assumes "wfRefs h b" "flagMinesH h b = (h', res)"
  shows "deref h' res = flagMines (deref h b)"
  using mapMinesH_sim[OF wfRefs_alloc[OF assms(1)] assms(2)[unfolded flagMinesH_def]]
  by (simp add: flagMines_def)

text \<open>
  The updater of \<open>handleReveal\<close> on the store returns the board that \<open>handleReveal\<close>
  returns on the value of \<open>prev\<close>, and throws when it throws.
\<close>

lemma handleRevealH_refines:
  assumes v: "\<forall>a \<in> set (concat prev). a < length h"
  shows "map_sum id (\<lambda>(h', res). deref h' res) (handleRevealH h prev s r c smp)
           = map_sum id board (handleReveal (s\<lparr>board := deref h prev\<rparr>) r c smp)"
proof (cases "status s = Lost \<or> status s = Won")
  case True
  then show ?thesis by (auto simp: handleRevealH_def handleReveal_unfold)
next
  case False
  let ?s = "s\<lparr>board := deref h prev\<rparr>"
  let ?d = "DIFFICULTIES (difficulty s)"
  have st: "\<not> (status ?s = Lost \<or> status ?s = Won)" using False by simp
  obtain h0 nxt where cl: "cloneBoardH h prev = (h0, nxt)" by (cases "cloneBoardH h prev")
  note c0 = cloneBoardH_wf[OF v cl]
  let ?P = "if \<not> minesPlanted s then plantMinesH h0 nxt (rows ?d) (cols ?d) (mines ?d) r c smp
            else Inr h0"
  have psim: "map_sum id (\<lambda>h'. deref h' nxt) ?P = plantedBoard ?s r c smp"
    using plantMinesH_sim[OF c0(1), of "rows ?d" "cols ?d" "mines ?d" r c smp]
    by (simp add: plantedBoard_def c0(2))
  show ?thesis
  proof (cases ?P)
    case (Inl e)
    with psim have "plantedBoard ?s r c smp = Inl e" by simp
    moreover from Inl False cl have "handleRevealH h prev s r c smp = Inl e"
      by (simp add: handleRevealH_def Let_def)
    ultimately show ?thesis using st by (simp add: handleReveal_unfold)
  next
    case (Inr h1)
    with psim have pb: "plantedBoard ?s r c smp = Inr (deref h1 nxt)" by simp
    have "writesWithin (set (concat nxt)) h0 h1"
      using Inr plantMinesH_frame[of h0 nxt "rows ?d" "cols ?d" "mines ?d" r c smp h1]
      by (auto simp: writesWithin_refl split: if_splits)
    from wfRefs_writesWithin[OF this c0(1)] have wf1: "wfRefs h1 nxt" .
    show ?thesis
    proof (cases "objAt h1 nxt r c")
      case None
      from objAt_NoneD[OF wf1 None] pb st have "handleReveal ?s r c smp = Inl TypeError"
        by (simp add: handleReveal_unfold)
      moreover from None Inr False cl have "handleRevealH h prev s r c smp = Inl TypeError"
        by (simp add: handleRevealH_def Let_def)
      ultimately show ?thesis by simp
    next
      case (Some ac)
      obtain a cell where ac: "ac = (a, cell)" by (cases ac)
      note at = Some[unfolded ac]
      note d = objAt_SomeD(1,2)[OF wf1 at]
      show ?thesis
      proof (cases "isRevealed cell \<or> isFlagged cell")
        case True
        with at Inr False cl have run: "handleRevealH h prev s r c smp = Inr (h1, prev)"
          by (simp add: handleRevealH_def Let_def)
        from handleRevealH_cow[OF run] have "preserves h h1" by simp
        from preserves_deref[OF this v] have "deref h1 prev = deref h prev" .
        moreover from True d(2) pb st have "handleReveal ?s r c smp = Inr (started ?s)"
          by (simp add: handleReveal_unfold)
        ultimately show ?thesis using run by simp
      next
        case acc: False
        show ?thesis
        proof (cases "isMine cell")
          case True
          obtain h' res where rm: "revealMinesH h1 nxt = (h', res)"
            by (cases "revealMinesH h1 nxt")
          with True acc at Inr False cl have "handleRevealH h prev s r c smp = Inr (h', res)"
            by (simp add: handleRevealH_def Let_def)
          moreover from True acc d(2) pb st
          have "handleReveal ?s r c smp
                  = Inr ((started ?s)\<lparr>board := revealMines (deref h1 nxt), status := Lost\<rparr>)"
            by (simp add: handleReveal_unfold)
          ultimately show ?thesis using revealMinesH_sim[OF wf1 rm] by simp
        next
          case safe: False
          let ?O = "if count cell = 0 then floodRevealH h1 nxt r c
                    else Inr (h1[a := cell\<lparr>isRevealed := True\<rparr>])"
          have osim: "map_sum id (\<lambda>h'. deref h' nxt) ?O = opened (deref h1 nxt) r c cell"
            using floodRevealH_sim[OF wf1, of r c]
                  objAt_SomeD(3)[OF wf1 at, of "cell\<lparr>isRevealed := True\<rparr>"]
            by (simp add: opened_def)
          show ?thesis
          proof (cases ?O)
            case oe: (Inl e)
            with osim have "opened (deref h1 nxt) r c cell = Inl e" by simp
            with safe acc d(2) pb st have "handleReveal ?s r c smp = Inl e"
              by (simp add: handleReveal_unfold)
            moreover from oe safe acc at Inr False cl
            have "handleRevealH h prev s r c smp = Inl e"
              by (simp add: handleRevealH_def Let_def)
            ultimately show ?thesis by simp
          next
            case oh: (Inr h2)
            with osim have op: "opened (deref h1 nxt) r c cell = Inr (deref h2 nxt)" by simp
            have "writesWithin (set (concat nxt)) h1 h2"
              using oh floodRevealH_frame[of h1 nxt r c h2]
                    writesWithin_objAt[OF at, of "cell\<lparr>isRevealed := True\<rparr>"]
              by (auto split: if_splits)
            from wfRefs_writesWithin[OF this wf1] have wf2: "wfRefs h2 nxt" .
            have cnt: "length (filter (\<lambda>a. isRevealed (h2 ! a) \<and> \<not> isMine (h2 ! a)) (concat nxt))
                        = countRevealedSafe (deref h2 nxt)"
              unfolding countRevealedSafe_def
              by (rule tally_deref[of "\<lambda>cel. isRevealed cel \<and> \<not> isMine cel"])
            have ts: "totalSafe ?s = totalSafe s" by (simp add: totalSafe_def)
            from safe acc d(2) pb st op
            have pure: "handleReveal ?s r c smp
                          = Inr (concluded (started ?s) (totalSafe s) (deref h2 nxt))"
              by (simp add: handleReveal_unfold ts)
            show ?thesis
            proof (cases "int (countRevealedSafe (deref h2 nxt)) = totalSafe s")
              case True
              obtain h' res where fm: "flagMinesH h2 nxt = (h', res)"
                by (cases "flagMinesH h2 nxt")
              with True oh safe acc at Inr False cl cnt
              have "handleRevealH h prev s r c smp = Inr (h', res)"
                by (simp add: handleRevealH_def Let_def)
              with pure True flagMinesH_sim[OF wf2 fm] show ?thesis
                by (simp add: concluded_def)
            next
              case nowin: False
              with oh safe acc at Inr False cl cnt
              have "handleRevealH h prev s r c smp = Inr (h2, nxt)"
                by (simp add: handleRevealH_def Let_def)
              with pure nowin show ?thesis by (simp add: concluded_def)
            qed
          qed
        qed
      qed
    qed
  qed
qed

text \<open>The same for the updater of \<open>handleFlag\<close>.\<close>

lemma handleFlagH_refines:
  assumes v: "\<forall>a \<in> set (concat prev). a < length h"
  shows "map_sum id (\<lambda>(h', res). deref h' res) (handleFlagH h prev s r c)
           = map_sum id board (handleFlag (s\<lparr>board := deref h prev\<rparr>) r c)"
proof (cases "status s = Lost \<or> status s = Won")
  case True
  then show ?thesis by (auto simp: handleFlagH_def handleFlag_def)
next
  case False
  let ?s = "s\<lparr>board := deref h prev\<rparr>"
  have st: "\<not> (status ?s = Lost \<or> status ?s = Won)" using False by simp
  obtain h0 nxt where cl: "cloneBoardH h prev = (h0, nxt)" by (cases "cloneBoardH h prev")
  note c0 = cloneBoardH_wf[OF v cl]
  have cf: "length (filter (\<lambda>a. isFlagged (h ! a)) (concat prev)) = countFlagged (deref h prev)"
    unfolding countFlagged_def by (rule tally_deref[of isFlagged])
  show ?thesis
  proof (cases "objAt h0 nxt r c")
    case None
    from objAt_NoneD[OF c0(1) None] st have "handleFlag ?s r c = Inl TypeError"
      by (simp add: handleFlag_def Let_def c0(2))
    moreover from None False cl have "handleFlagH h prev s r c = Inl TypeError"
      by (simp add: handleFlagH_def Let_def)
    ultimately show ?thesis by simp
  next
    case (Some ac)
    obtain a cell where ac: "ac = (a, cell)" by (cases ac)
    note at = Some[unfolded ac]
    note d = objAt_SomeD(1,2)[OF c0(1) at]
    from d(2) have atp: "cellAt (board ?s) r c = Some cell" by (simp add: c0(2))
    show ?thesis
    proof (cases "isRevealed cell \<or> (\<not> isFlagged cell \<and>
        int (mines (DIFFICULTIES (difficulty s))) - int (countFlagged (deref h prev)) = 0)")
      case True
      with at False cl cf have run: "handleFlagH h prev s r c = Inr (h0, prev)"
        by (auto simp: handleFlagH_def Let_def)
      from handleFlagH_cow[OF run] have "preserves h h0" by simp
      from preserves_deref[OF this v] have "deref h0 prev = deref h prev" .
      moreover from True atp st have "handleFlag ?s r c = Inr ?s"
        by (auto simp: handleFlag_def Let_def)
      ultimately show ?thesis using run by simp
    next
      case acc: False
      let ?v = "cell\<lparr>isFlagged := \<not> isFlagged cell\<rparr>"
      from acc at False cl cf have run: "handleFlagH h prev s r c = Inr (h0[a := ?v], nxt)"
        by (auto simp: handleFlagH_def Let_def)
      moreover from acc atp st
      have "handleFlag ?s r c = Inr (?s\<lparr>board := setCell (board ?s) r c ?v\<rparr>)"
        by (auto simp: handleFlag_def Let_def)
      moreover have "deref (h0[a := ?v]) nxt = setCell (deref h prev) r c ?v"
        using objAt_SomeD(3)[OF c0(1) at, of ?v] by (simp add: c0(2))
      ultimately show ?thesis by simp
    qed
  qed
qed

end
